theory Spec2Isabelle
  imports Complex_Main "HOL-Library.Multiset" "HOL-Library.AList"
begin

section \<open>JavaScript numbers\<close>

text \<open>
  The detector of \<^verbatim>\<open>services/anomalyDetector.js\<close> computes on JavaScript numbers, the
  binary64 values of IEEE 754. A number is modelled as \<open>Fin r\<close>, a finite value, \<open>PInf\<close>
  and \<open>NInf\<close>, which are \<open>Infinity\<close> and \<open>-Infinity\<close>, or \<open>NaN\<close>. The sign of zero is not
  modelled: no operation of the detector tells \<open>-0\<close> from \<open>+0\<close>.
\<close>

datatype jsnum = Fin real | PInf | NInf | NaN

text \<open>
  Rounding to binary64. \<open>pow2 k\<close> is \<open>2\<^sup>k\<close>; \<open>expo x\<close> is the binary exponent of \<open>x\<close>, at
  least \<open>-1022\<close> (below it numbers are subnormal); \<open>ulp x\<close> is the distance of neighbouring
  numbers with 53 significant bits at that exponent; \<open>rne\<close> rounds to the nearest integer,
  to the even one on a tie. \<open>fl x\<close> is the number that a correctly rounded operation
  returns for the exact result \<open>x\<close>: the nearest multiple of \<open>ulp x\<close>, and an infinity when
  that multiple reaches \<open>2\<^sup>1\<^sup>0\<^sup>2\<^sup>4\<close>.
\<close>

definition pow2 :: "int \<Rightarrow> real" where
  "pow2 k = (if 0 \<le> k then 2 ^ nat k else 1 / 2 ^ nat (- k))"

definition expo :: "real \<Rightarrow> int" where
  "expo x = max \<lfloor>log 2 \<bar>x\<bar>\<rfloor> (- 1022)"

definition ulp :: "real \<Rightarrow> real" where
  "ulp x = pow2 (expo x - 52)"

definition rne :: "real \<Rightarrow> int" where
  "rne q = (let f = \<lfloor>q\<rfloor>; d = q - real_of_int f in
            if d < 1 / 2 then f else if 1 / 2 < d then f + 1
            else if even f then f else f + 1)"

definition fl :: "real \<Rightarrow> jsnum" where
  "fl x = (if x = 0 then Fin 0
           else let r = real_of_int (rne (x / ulp x)) * ulp x in
                if 2 ^ 1024 \<le> \<bar>r\<bar> then (if 0 < x then PInf else NInf) else Fin r)"


text \<open>The arithmetic operators: the exact result, rounded; the special values follow IEEE.\<close>

fun js_neg :: "jsnum \<Rightarrow> jsnum" where
  "js_neg (Fin a) = Fin (- a)"
| "js_neg PInf = NInf"
| "js_neg NInf = PInf"
| "js_neg NaN = NaN"

fun js_add :: "jsnum \<Rightarrow> jsnum \<Rightarrow> jsnum" where
  "js_add (Fin a) (Fin b) = fl (a + b)"
| "js_add (Fin a) PInf = PInf"
| "js_add (Fin a) NInf = NInf"
| "js_add PInf (Fin b) = PInf"
| "js_add PInf PInf = PInf"
| "js_add PInf NInf = NaN"
| "js_add NInf (Fin b) = NInf"
| "js_add NInf PInf = NaN"
| "js_add NInf NInf = NInf"
| "js_add NaN y = NaN"
| "js_add x NaN = NaN"

definition js_sub :: "jsnum \<Rightarrow> jsnum \<Rightarrow> jsnum" where
  "js_sub x y = js_add x (js_neg y)"

fun js_mul :: "jsnum \<Rightarrow> jsnum \<Rightarrow> jsnum" where
  "js_mul (Fin a) (Fin b) = fl (a * b)"
| "js_mul (Fin a) PInf = (if a = 0 then NaN else if 0 < a then PInf else NInf)"
| "js_mul (Fin a) NInf = (if a = 0 then NaN else if 0 < a then NInf else PInf)"
| "js_mul PInf (Fin b) = (if b = 0 then NaN else if 0 < b then PInf else NInf)"
| "js_mul NInf (Fin b) = (if b = 0 then NaN else if 0 < b then NInf else PInf)"
| "js_mul PInf PInf = PInf"
| "js_mul PInf NInf = NInf"
| "js_mul NInf PInf = NInf"
| "js_mul NInf NInf = PInf"
| "js_mul NaN y = NaN"
| "js_mul x NaN = NaN"

text \<open>Division; a zero divisor is read as \<open>+0\<close>.\<close>

fun js_div :: "jsnum \<Rightarrow> jsnum \<Rightarrow> jsnum" where
  "js_div (Fin a) (Fin b) =
     (if b = 0 then (if a = 0 then NaN else if 0 < a then PInf else NInf) else fl (a / b))"
| "js_div (Fin a) PInf = Fin 0"
| "js_div (Fin a) NInf = Fin 0"
| "js_div PInf (Fin b) = (if 0 \<le> b then PInf else NInf)"
| "js_div NInf (Fin b) = (if 0 \<le> b then NInf else PInf)"
| "js_div PInf PInf = NaN"
| "js_div PInf NInf = NaN"
| "js_div NInf PInf = NaN"
| "js_div NInf NInf = NaN"
| "js_div NaN y = NaN"
| "js_div x NaN = NaN"

text \<open>\<^verbatim>\<open>x ** 2\<close>, as the correctly rounded square.\<close>

definition js_pow2 :: "jsnum \<Rightarrow> jsnum" where
  "js_pow2 x = js_mul x x"

text \<open>\<^verbatim>\<open>Math.abs\<close>, which is exact, and \<^verbatim>\<open>Math.sqrt\<close>, which is correctly rounded.\<close>

fun js_abs :: "jsnum \<Rightarrow> jsnum" where
  "js_abs (Fin a) = Fin \<bar>a\<bar>"
| "js_abs PInf = PInf"
| "js_abs NInf = PInf"
| "js_abs NaN = NaN"

fun js_sqrt :: "jsnum \<Rightarrow> jsnum" where
  "js_sqrt (Fin a) = (if a < 0 then NaN else fl (sqrt a))"
| "js_sqrt PInf = PInf"
| "js_sqrt NInf = NaN"
| "js_sqrt NaN = NaN"

text \<open>The comparisons \<^verbatim>\<open>x > y\<close>, \<^verbatim>\<open>x < y\<close> and \<^verbatim>\<open>x >= y\<close>: false as soon as one side is NaN.\<close>

fun js_gt :: "jsnum \<Rightarrow> jsnum \<Rightarrow> bool" where
  "js_gt (Fin a) (Fin b) = (b < a)"
| "js_gt (Fin a) PInf = False"
| "js_gt (Fin a) NInf = True"
| "js_gt PInf (Fin b) = True"
| "js_gt PInf PInf = False"
| "js_gt PInf NInf = True"
| "js_gt NInf y = False"
| "js_gt NaN y = False"
| "js_gt x NaN = False"

definition js_lt :: "jsnum \<Rightarrow> jsnum \<Rightarrow> bool" where
  "js_lt x y = js_gt y x"

definition js_ge :: "jsnum \<Rightarrow> jsnum \<Rightarrow> bool" where
  "js_ge x y = (x \<noteq> NaN \<and> y \<noteq> NaN \<and> \<not> js_gt y x)"

definition isNaN :: "jsnum \<Rightarrow> bool" where
  "isNaN x = (x = NaN)"

text \<open>\<^verbatim>\<open>Math.max(a, b)\<close> and \<^verbatim>\<open>Math.min(a, b)\<close>: NaN as soon as one argument is NaN.\<close>

definition js_max :: "jsnum \<Rightarrow> jsnum \<Rightarrow> jsnum" where
  "js_max x y = (if x = NaN \<or> y = NaN then NaN else if js_gt y x then y else x)"

definition js_min :: "jsnum \<Rightarrow> jsnum \<Rightarrow> jsnum" where
  "js_min x y = (if x = NaN \<or> y = NaN then NaN else if js_gt x y then y else x)"

text \<open>\<^verbatim>\<open>Math.max(...values)\<close> and \<^verbatim>\<open>Math.min(...values)\<close>; without arguments they are
  \<open>-Infinity\<close> and \<open>Infinity\<close>.\<close>

definition Math_max :: "jsnum list \<Rightarrow> jsnum" where
  "Math_max vs = fold (\<lambda>v m. js_max m v) vs NInf"

definition Math_min :: "jsnum list \<Rightarrow> jsnum" where
  "Math_min vs = fold (\<lambda>v m. js_min m v) vs PInf"

text \<open>
  \<^verbatim>\<open>+x.toFixed(2)\<close>: the number read back from the two-decimal rendering of \<open>x\<close>.
  \<^verbatim>\<open>toFixed\<close> renders the magnitude with the integer \<open>n\<close> for which \<open>n / 100\<close> is
  closest to it, the larger \<open>n\<close> on a tie, and puts the sign in front; from \<open>10\<^sup>2\<^sup>1\<close> on it
  renders the number itself. Reading the rendering back rounds the decimal \<open>n / 100\<close> to
  binary64.
\<close>

fun toFixed2 :: "jsnum \<Rightarrow> jsnum" where
  "toFixed2 (Fin a) =
     (if 10 ^ 21 \<le> \<bar>a\<bar> then Fin a
      else fl (sgn a * real_of_int \<lfloor>\<bar>a\<bar> * 100 + 1 / 2\<rfloor> / 100))"
| "toFixed2 PInf = PInf"
| "toFixed2 NInf = NInf"
| "toFixed2 NaN = NaN"

text \<open>\<^verbatim>\<open>x || 1\<close> on a number: zero and NaN are falsy.\<close>

definition or_one :: "jsnum \<Rightarrow> jsnum" where
  "or_one x = (if x = Fin 0 \<or> x = NaN then Fin 1 else x)"

section \<open>Static tables\<close>

record limit =
  lim_min :: jsnum
  lim_max :: jsnum
  lim_unit :: string
  label :: string

definition REDLINE_LIMITS :: "(string \<times> limit) list" where
  "REDLINE_LIMITS =
    [(''velocity_ms'', \<lparr>lim_min = Fin (-50), lim_max = Fin 8200, lim_unit = ''m/s'', label = ''Velocity''\<rparr>),
     (''altitude_km'', \<lparr>lim_min = Fin (-1), lim_max = Fin 250, lim_unit = ''km'', label = ''Altitude''\<rparr>),
     (''velocity_y_ms'', \<lparr>lim_min = Fin (-200), lim_max = Fin 2000, lim_unit = ''m/s'', label = ''Vertical Velocity''\<rparr>),
     (''velocity_x_ms'', \<lparr>lim_min = Fin (-50), lim_max = Fin 8200, lim_unit = ''m/s'', label = ''Horizontal Velocity''\<rparr>),
     (''acceleration_ms2'', \<lparr>lim_min = Fin 0, lim_max = Fin 40, lim_unit = ''m/s2'', label = ''Acceleration''\<rparr>),
     (''downrange_distance_km'', \<lparr>lim_min = Fin (-1), lim_max = Fin 1500, lim_unit = ''km'', label = ''Downrange Distance''\<rparr>),
     (''angle_deg'', \<lparr>lim_min = Fin (-5), lim_max = Fin 92, lim_unit = ''deg'', label = ''Flight Angle''\<rparr>),
     (''dynamic_pressure_pa'', \<lparr>lim_min = Fin 0, lim_max = Fin 35000, lim_unit = ''Pa'', label = ''Dynamic Pressure (Q)''\<rparr>),
     (''jerk_ms3'', \<lparr>lim_min = Fin (-25), lim_max = Fin 25, lim_unit = ''m/s3'', label = ''Jerk''\<rparr>),
     (''altitude_rate_kms'', \<lparr>lim_min = Fin (-0.5), lim_max = Fin 2.5, lim_unit = ''km/s'', label = ''Altitude Rate''\<rparr>),
     (''velocity_rate_ms2'', \<lparr>lim_min = Fin (-30), lim_max = Fin 45, lim_unit = ''m/s2'', label = ''Velocity Rate''\<rparr>),
     (''angle_rate_degs'', \<lparr>lim_min = Fin (-5), lim_max = Fin 1, lim_unit = ''deg/s'', label = ''Angle Rate''\<rparr>),
     (''mach_number'', \<lparr>lim_min = Fin 0, lim_max = Fin 25, lim_unit = '''', label = ''Mach Number''\<rparr>)]"

definition MISSION_EVENTS :: "(string \<times> nat) list" where
  "MISSION_EVENTS =
    [(''maxq'', 54), (''throttle_down_start'', 48), (''throttle_down_end'', 68),
     (''meco'', 145), (''ses1'', 156)]"

section \<open>Data model\<close>

text \<open>
  An input record: the number stored under a property name, \<open>None\<close> when the property is
  absent or its value is not of type \<^verbatim>\<open>'number'\<close> (the only thing the detector asks of
  such a value is \<^verbatim>\<open>typeof v === 'number'\<close>).
\<close>

type_synonym telemetry = "string \<Rightarrow> jsnum option"

text \<open>\<^verbatim>\<open>d.mission_time_s\<close> as a number; a value that is no number behaves as NaN in the
  subtractions and comparisons made on it.\<close>

definition mission_time_s :: "telemetry \<Rightarrow> jsnum" where
  "mission_time_s d = (case d ''mission_time_s'' of Some t \<Rightarrow> t | None \<Rightarrow> NaN)"

datatype anomaly_type = Z_Score_Outlier | Rapid_Change | Redline_Violation | Sustained_Deviation

datatype severity = CRITICAL | WARNING | CAUTION

datatype direction = HIGH | LOW

text \<open>The fields an anomaly has besides the common ones, by detector.\<close>

datatype detail =
    ZScoreFields (expected: jsnum) (zScore: jsnum)
  | RapidFields (previousValue: jsnum) (rateOfChange: jsnum)
  | RedlineFields (redlineLimit: jsnum) (exceedance: jsnum) (dir: direction) (percentOver: jsnum)
  | SustainedFields (expected: jsnum) (deviationSigma: jsnum)

text \<open>
  An anomaly object. Its \<^verbatim>\<open>description\<close>, a display string formatted from the other
  fields, is left out: no operation of the detector reads it.
\<close>

record anomaly =
  type :: anomaly_type
  severity :: severity
  parameter :: string
  paramLabel :: string
  a_value :: jsnum
  detail :: detail
  unit :: string
  missionTime :: jsnum
  index :: nat

record baseline =
  mean :: jsnum
  std :: jsnum
  b_min :: jsnum
  b_max :: jsnum

text \<open>An event while it is being filled, and the finished event.\<close>

record cluster =
  ev_id :: string
  ev_anomalies :: "anomaly list"
  startTime :: jsnum
  endTime :: jsnum

record event = cluster +
  ev_severity :: severity
  affectedParams :: "string list"
  anomalyTypes :: "anomaly_type list"
  ev_count :: nat

text \<open>
  The detector object. \<^verbatim>\<open>this.stats\<close> is an object whose keys keep their insertion
  order, so it is an association list; \<^verbatim>\<open>this.events\<close> is undefined until the first
  clustering.
\<close>

record detector =
  data :: "telemetry list"
  anomalies :: "anomaly list"
  stats :: "(string \<times> baseline) list"
  events :: "event list option"

definition constructor :: "telemetry list \<Rightarrow> detector" where
  "constructor d = \<lparr>data = d, anomalies = [], stats = [], events = None\<rparr>"

section \<open>Baseline statistics\<close>

text \<open>\<^verbatim>\<open>data.map(d => d[param]).filter(v => typeof v === 'number' && !isNaN(v))\<close>\<close>

definition param_values :: "telemetry list \<Rightarrow> string \<Rightarrow> jsnum list" where
  "param_values ds param =
     List.map_filter (\<lambda>d. case d param of
                             None \<Rightarrow> None
                           | Some v \<Rightarrow> if \<not> isNaN v then Some v else None) ds"

definition computeStats_param :: "telemetry list \<Rightarrow> string \<Rightarrow> (string \<times> baseline) list
    \<Rightarrow> (string \<times> baseline) list" where
  "computeStats_param ds param st =
     (let values = param_values ds param in
      if length values = 0 then st
      else
        let sum = foldl js_add (Fin 0) values;
            mean = js_div sum (Fin (real (length values)));
            variance = js_div (foldl (\<lambda>a v. js_add a (js_pow2 (js_sub v mean))) (Fin 0) values)
                              (Fin (real (length values)))
        in AList.update param
             \<lparr>mean = mean, std = js_sqrt variance,
              b_min = Math_min values, b_max = Math_max values\<rparr> st)"

definition computeStats :: "telemetry list \<Rightarrow> (string \<times> baseline) list \<Rightarrow> (string \<times> baseline) list" where
  "computeStats ds st = fold (computeStats_param ds) (map fst REDLINE_LIMITS) st"

section \<open>Detectors\<close>

text \<open>\<^verbatim>\<open>lim?.label || param\<close> and \<^verbatim>\<open>lim?.unit || ''\<close> for \<^verbatim>\<open>lim = REDLINE_LIMITS[param]\<close>.\<close>

definition label_or :: "string \<Rightarrow> string" where
  "label_or param =
     (case map_of REDLINE_LIMITS param of
        None \<Rightarrow> param
      | Some lm \<Rightarrow> if label lm = [] then param else label lm)"

definition unit_or :: "string \<Rightarrow> string" where
  "unit_or param =
     (case map_of REDLINE_LIMITS param of None \<Rightarrow> [] | Some lm \<Rightarrow> lim_unit lm)"

subsection \<open>Z-score outliers\<close>

definition Z :: jsnum where
  "Z = Fin 3"

definition zscore_sample :: "telemetry list \<Rightarrow> string \<Rightarrow> baseline \<Rightarrow> nat \<Rightarrow> anomaly list \<Rightarrow> anomaly list" where
  "zscore_sample ds param s i acc =
     (case (ds ! i) param of
        None \<Rightarrow> acc
      | Some v \<Rightarrow>
          let z = js_abs (js_div (js_sub v (mean s)) (std s)) in
          if js_gt z Z then
            acc @ [\<lparr>type = Z_Score_Outlier,
                    severity = (if js_gt z (Fin 5) then CRITICAL
                                else if js_gt z (Fin 4) then WARNING else CAUTION),
                    parameter = param,
                    paramLabel = label_or param,
                    a_value = toFixed2 v,
                    detail = ZScoreFields (toFixed2 (mean s)) (toFixed2 z),
                    unit = unit_or param,
                    missionTime = mission_time_s (ds ! i),
                    index = i\<rparr>]
          else acc)"

definition detectZScore_param :: "telemetry list \<Rightarrow> string \<times> baseline \<Rightarrow> anomaly list \<Rightarrow> anomaly list" where
  "detectZScore_param ds = (\<lambda>(param, s) acc.
     if std s = Fin 0 then acc
     else fold (zscore_sample ds param s) [0..<length ds] acc)"

definition detectZScoreAnomalies :: "telemetry list \<Rightarrow> (string \<times> baseline) list \<Rightarrow> anomaly list \<Rightarrow> anomaly list" where
  "detectZScoreAnomalies ds st acc = fold (detectZScore_param ds) st acc"

subsection \<open>Rate of change\<close>

definition MULT :: jsnum where
  "MULT = Fin 5"

definition roc_values :: "telemetry list \<Rightarrow> string \<Rightarrow> jsnum list" where
  "roc_values ds param =
     List.map_filter (\<lambda>i. case ((ds ! (i - 1)) param, (ds ! i) param) of
                             (Some a, Some b) \<Rightarrow> Some (js_abs (js_sub b a))
                           | _ \<Rightarrow> None) [1..<length ds]"

definition roc_sample :: "telemetry list \<Rightarrow> string \<Rightarrow> jsnum \<Rightarrow> nat \<Rightarrow> anomaly list \<Rightarrow> anomaly list" where
  "roc_sample ds param threshold i acc =
     (case ((ds ! (i - 1)) param, (ds ! i) param) of
        (Some a, Some b) \<Rightarrow>
          let roc = js_abs (js_sub b a) in
          if js_gt roc threshold then
            acc @ [\<lparr>type = Rapid_Change,
                    severity = (if js_gt roc (js_mul threshold (Fin 3)) then CRITICAL
                                else if js_gt roc (js_mul threshold (Fin 2)) then WARNING
                                else CAUTION),
                    parameter = param,
                    paramLabel = label_or param,
                    a_value = toFixed2 b,
                    detail = RapidFields (toFixed2 a) (toFixed2 roc),
                    unit = unit_or param,
                    missionTime = mission_time_s (ds ! i),
                    index = i\<rparr>]
          else acc
      | _ \<Rightarrow> acc)"

definition detectRateOfChange_param :: "telemetry list \<Rightarrow> string \<times> baseline \<Rightarrow> anomaly list \<Rightarrow> anomaly list" where
  "detectRateOfChange_param ds = (\<lambda>(param, s) acc.
     let rocs = roc_values ds param in
     if length rocs = 0 then acc
     else
       let avg = js_div (foldl js_add (Fin 0) rocs) (Fin (real (length rocs)));
           threshold = js_mul avg MULT
       in if threshold = Fin 0 then acc
          else fold (roc_sample ds param threshold) [1..<length ds] acc)"

definition detectRateOfChange :: "telemetry list \<Rightarrow> (string \<times> baseline) list \<Rightarrow> anomaly list \<Rightarrow> anomaly list" where
  "detectRateOfChange ds st acc = fold (detectRateOfChange_param ds) st acc"

subsection \<open>Redline violations\<close>

text \<open>The \<^verbatim>\<open>viol\<close> object: direction, exceedance and the violated limit.\<close>

definition violation :: "limit \<Rightarrow> jsnum \<Rightarrow> (direction \<times> jsnum \<times> jsnum) option" where
  "violation lm v =
     (if js_gt v (lim_max lm) then Some (HIGH, toFixed2 (js_sub v (lim_max lm)), lim_max lm)
      else if js_lt v (lim_min lm) then Some (LOW, toFixed2 (js_sub (lim_min lm) v), lim_min lm)
      else None)"

definition redline_sample :: "telemetry list \<Rightarrow> string \<Rightarrow> limit \<Rightarrow> nat \<Rightarrow> anomaly list \<Rightarrow> anomaly list" where
  "redline_sample ds param lm i acc =
     (case (ds ! i) param of
        None \<Rightarrow> acc
      | Some v \<Rightarrow>
          (case violation lm v of
             None \<Rightarrow> acc
           | Some (d, exc, lmt) \<Rightarrow>
               let pct = js_mul (js_div exc (js_abs (or_one lmt))) (Fin 100) in
               acc @ [\<lparr>type = Redline_Violation,
                       severity = (if js_gt pct (Fin 10) then CRITICAL
                                   else if js_gt pct (Fin 5) then WARNING else CAUTION),
                       parameter = param,
                       paramLabel = label lm,
                       a_value = toFixed2 v,
                       detail = RedlineFields lmt exc d (toFixed2 pct),
                       unit = lim_unit lm,
                       missionTime = mission_time_s (ds ! i),
                       index = i\<rparr>]))"

definition detectRedline_param :: "telemetry list \<Rightarrow> string \<times> limit \<Rightarrow> anomaly list \<Rightarrow> anomaly list" where
  "detectRedline_param ds = (\<lambda>(param, lm) acc.
     fold (redline_sample ds param lm) [0..<length ds] acc)"

definition detectRedlineViolations :: "telemetry list \<Rightarrow> anomaly list \<Rightarrow> anomaly list" where
  "detectRedlineViolations ds acc = fold (detectRedline_param ds) REDLINE_LIMITS acc"

subsection \<open>Sustained deviations\<close>

definition WIN :: nat where
  "WIN = 20"

definition SIG :: jsnum where
  "SIG = Fin 2"

text \<open>\<^verbatim>\<open>data.slice(i - WIN, i).map(d => d[param]).filter(v => typeof v === 'number')\<close>\<close>

definition window_values :: "telemetry list \<Rightarrow> string \<Rightarrow> nat \<Rightarrow> jsnum list" where
  "window_values ds param i = List.map_filter (\<lambda>d. d param) (take WIN (drop (i - WIN) ds))"

text \<open>The deviation of the window ending before \<open>i\<close>, when the window has at least
  \<^verbatim>\<open>WIN * 0.8\<close> values.\<close>

definition window_dev :: "telemetry list \<Rightarrow> string \<Rightarrow> baseline \<Rightarrow> nat \<Rightarrow> (jsnum \<times> jsnum) option" where
  "window_dev ds param s i =
     (let vals = window_values ds param i in
      if 10 * length vals < WIN * 8 then None
      else
        let wm = js_div (foldl js_add (Fin 0) vals) (Fin (real (length vals)));
            dev = js_div (js_abs (js_sub wm (mean s))) (std s)
        in Some (wm, dev))"

text \<open>\<^verbatim>\<open>this.anomalies.find(...)\<close> of the deduplication, as a test.\<close>

definition dup :: "anomaly list \<Rightarrow> string \<Rightarrow> nat \<Rightarrow> bool" where
  "dup acc param i =
     (List.find (\<lambda>a. type a = Sustained_Deviation \<and> parameter a = param
                      \<and> \<bar>int (index a) - int i\<bar> < int WIN) acc \<noteq> None)"

definition sustained_sample :: "telemetry list \<Rightarrow> string \<Rightarrow> baseline \<Rightarrow> nat \<Rightarrow> anomaly list \<Rightarrow> anomaly list" where
  "sustained_sample ds param s i acc =
     (case window_dev ds param s i of
        None \<Rightarrow> acc
      | Some (wm, dev) \<Rightarrow>
          if js_gt dev SIG then
            (if \<not> dup acc param i then
               acc @ [\<lparr>type = Sustained_Deviation,
                       severity = (if js_gt dev (Fin 4) then CRITICAL
                                   else if js_gt dev (Fin 3) then WARNING else CAUTION),
                       parameter = param,
                       paramLabel = label_or param,
                       a_value = toFixed2 wm,
                       detail = SustainedFields (toFixed2 (mean s)) (toFixed2 dev),
                       unit = unit_or param,
                       missionTime = mission_time_s (ds ! i),
                       index = i\<rparr>]
             else acc)
          else acc)"

definition detectSustained_param :: "telemetry list \<Rightarrow> string \<times> baseline \<Rightarrow> anomaly list \<Rightarrow> anomaly list" where
  "detectSustained_param ds = (\<lambda>(param, s) acc.
     if std s = Fin 0 then acc
     else fold (sustained_sample ds param s) [WIN..<length ds] acc)"

definition detectSustainedDeviations :: "telemetry list \<Rightarrow> (string \<times> baseline) list \<Rightarrow> anomaly list \<Rightarrow> anomaly list" where
  "detectSustainedDeviations ds st acc = fold (detectSustained_param ds) st acc"

section \<open>Clustering into events\<close>

text \<open>
  \<^verbatim>\<open>this.anomalies.sort((a, b) => a.missionTime - b.missionTime)\<close>. The sort of the
  language is stable; it is modelled by the stable insertion sort, which puts an element
  behind another one only when the comparator is positive on them (a NaN result of the
  comparator counts as zero).
\<close>

definition compare_time :: "anomaly \<Rightarrow> anomaly \<Rightarrow> jsnum" where
  "compare_time a b = js_sub (missionTime a) (missionTime b)"

fun insert_sorted :: "anomaly \<Rightarrow> anomaly list \<Rightarrow> anomaly list" where
  "insert_sorted a [] = [a]"
| "insert_sorted a (b # bs) =
     (if js_gt (compare_time a b) (Fin 0) then b # insert_sorted a bs else a # b # bs)"

definition sort_anomalies :: "anomaly list \<Rightarrow> anomaly list" where
  "sort_anomalies xs = foldr insert_sorted xs []"

definition TIME_WIN :: jsnum where
  "TIME_WIN = Fin 10"

text \<open>\<^verbatim>\<open>String(eid).padStart(3, '0')\<close>\<close>

definition digit_char :: "nat \<Rightarrow> char" where
  "digit_char n = ''0123456789'' ! (n mod 10)"

function String_of_nat :: "nat \<Rightarrow> string" where
  "String_of_nat n =
     (if n < 10 then [digit_char n] else String_of_nat (n div 10) @ [digit_char (n mod 10)])"
  by pat_completeness auto
termination
  by (relation "measure (\<lambda>n. n)") auto

definition padStart :: "nat \<Rightarrow> char \<Rightarrow> string \<Rightarrow> string" where
  "padStart n c s = replicate (n - length s) c @ s"

definition event_id :: "nat \<Rightarrow> string" where
  "event_id eid = ''EVT-'' @ padStart 3 (CHR ''0'') (String_of_nat eid)"

text \<open>\<^verbatim>\<open>[...new Set(xs)]\<close>: the distinct elements in the order of their first occurrence.\<close>

definition Set_values :: "'a list \<Rightarrow> 'a list" where
  "Set_values xs = fold (\<lambda>x acc. if x \<in> set acc then acc else acc @ [x]) xs []"

text \<open>The inner loop at index \<open>j\<close>.\<close>

definition absorb_step :: "anomaly list \<Rightarrow> nat \<Rightarrow> cluster \<times> nat set \<Rightarrow> cluster \<times> nat set" where
  "absorb_step xs j = (\<lambda>(ev, used).
     if j \<in> used then (ev, used)
     else if js_lt (js_abs (js_sub (missionTime (xs ! j)) (startTime ev))) TIME_WIN then
       (ev\<lparr>ev_anomalies := ev_anomalies ev @ [xs ! j],
           endTime := js_max (endTime ev) (missionTime (xs ! j))\<rparr>,
        insert j used)
     else (ev, used))"

text \<open>The rollup of a filled event.\<close>

definition rollup :: "severity list \<Rightarrow> severity" where
  "rollup sevs = (if CRITICAL \<in> set sevs then CRITICAL
                  else if WARNING \<in> set sevs then WARNING else CAUTION)"

definition finish_event :: "cluster \<Rightarrow> event" where
  "finish_event ev =
     cluster.extend ev
       (event.fields (rollup (map severity (ev_anomalies ev)))
                     (Set_values (map paramLabel (ev_anomalies ev)))
                     (Set_values (map type (ev_anomalies ev)))
                     (length (ev_anomalies ev)))"

text \<open>The outer loop at index \<open>i\<close>, on the event counter, the visited indices and the
  events made so far.\<close>

definition cluster_step :: "anomaly list \<Rightarrow> nat \<Rightarrow> nat \<times> nat set \<times> event list
    \<Rightarrow> nat \<times> nat set \<times> event list" where
  "cluster_step xs i = (\<lambda>(eid, used, evs).
     if i \<in> used then (eid, used, evs)
     else
       let ev0 = \<lparr>ev_id = event_id eid, ev_anomalies = [xs ! i],
                  startTime = missionTime (xs ! i), endTime = missionTime (xs ! i)\<rparr>;
           (ev, used') = fold (absorb_step xs) [i + 1..<length xs] (ev0, insert i used)
       in (eid + 1, used', evs @ [finish_event ev]))"

definition clusterAnomalies :: "detector \<Rightarrow> detector" where
  "clusterAnomalies s =
     (let xs = sort_anomalies (anomalies s);
          (eid, used, evs) = fold (cluster_step xs) [0..<length xs] (1, {}, [])
      in s\<lparr>anomalies := xs, events := Some evs\<rparr>)"

section \<open>The detection run and the summary\<close>

text \<open>The working set: records whose mission time is a number and \<^verbatim>\<open>>= 0\<close>.\<close>

definition working_set :: "telemetry list \<Rightarrow> telemetry list" where
  "working_set ds =
     filter (\<lambda>d. case d ''mission_time_s'' of None \<Rightarrow> False | Some t \<Rightarrow> js_ge t (Fin 0)) ds"

text \<open>\<^verbatim>\<open>detectAll\<close> as a change of the detector; the method returns the anomaly list of
  the detector it leaves.\<close>

definition detectAll_run :: "detector \<Rightarrow> detector" where
  "detectAll_run s =
     (let s0 = s\<lparr>anomalies := []\<rparr>;
          working = working_set (data s0)
      in if length working = 0 then s0
         else
           let s1 = s0\<lparr>stats := computeStats working (stats s0)\<rparr>;
               s2 = s1\<lparr>anomalies := detectZScoreAnomalies working (stats s1) (anomalies s1)\<rparr>;
               s3 = s2\<lparr>anomalies := detectRateOfChange working (stats s2) (anomalies s2)\<rparr>;
               s4 = s3\<lparr>anomalies := detectRedlineViolations working (anomalies s3)\<rparr>;
               s5 = s4\<lparr>anomalies := detectSustainedDeviations working (stats s4) (anomalies s4)\<rparr>
           in clusterAnomalies s5)"

definition detectAll :: "detector \<Rightarrow> anomaly list \<times> detector" where
  "detectAll s = (anomalies (detectAll_run s), detectAll_run s)"

record summary =
  totalAnomalies :: nat
  totalEvents :: nat
  bySeverity :: "(severity \<times> nat) list"
  byType :: "(anomaly_type \<times> nat) list"
  byParameter :: "(string \<times> nat) list"
  sm_events :: "event list"
  redlineLimits :: "(string \<times> limit) list"
  missionEvents :: "(string \<times> nat) list"

text \<open>\<^verbatim>\<open>obj[k] = (obj[k] || 0) + 1\<close> and \<^verbatim>\<open>obj[k]++\<close> on a counter object.\<close>

definition bump :: "'k \<Rightarrow> ('k \<times> nat) list \<Rightarrow> ('k \<times> nat) list" where
  "bump k m = AList.update k ((case map_of m k of None \<Rightarrow> 0 | Some c \<Rightarrow> c) + 1) m"

definition getSummary :: "detector \<Rightarrow> summary" where
  "getSummary s =
     \<lparr>totalAnomalies = length (anomalies s),
      totalEvents = (case events s of None \<Rightarrow> 0 | Some evs \<Rightarrow> length evs),
      bySeverity = fold (\<lambda>a. bump (severity a)) (anomalies s)
                     [(CRITICAL, 0), (WARNING, 0), (CAUTION, 0)],
      byType = fold (\<lambda>a. bump (type a)) (anomalies s) [],
      byParameter = fold (\<lambda>a. bump (paramLabel a)) (anomalies s) [],
      sm_events = (case events s of None \<Rightarrow> [] | Some evs \<Rightarrow> evs),
      redlineLimits = REDLINE_LIMITS,
      missionEvents = MISSION_EVENTS\<rparr>"

section \<open>The clustering as the specification words it\<close>

text \<open>
  The greedy clustering on a time-ordered list, without indices: the first anomaly seeds
  an event, every later anomaly whose time is within \<open>TIME_WIN\<close> of the seed's time is
  absorbed, the end time is the maximum over the absorbed times, and the anomalies left
  over are clustered in the same way under the next event number.
\<close>

definition within_win :: "jsnum \<Rightarrow> anomaly \<Rightarrow> bool" where
  "within_win start a = js_lt (js_abs (js_sub (missionTime a) start)) TIME_WIN"

definition greedy_event :: "nat \<Rightarrow> anomaly \<Rightarrow> anomaly list \<Rightarrow> event" where
  "greedy_event eid seed absorbed =
     finish_event \<lparr>ev_id = event_id eid, ev_anomalies = seed # absorbed,
                   startTime = missionTime seed,
                   endTime = foldl js_max (missionTime seed) (map missionTime absorbed)\<rparr>"

fun greedy_events :: "nat \<Rightarrow> anomaly list \<Rightarrow> event list" where
  "greedy_events eid [] = []"
| "greedy_events eid (a # xs) =
     greedy_event eid a (filter (within_win (missionTime a)) xs)
       # greedy_events (eid + 1) (filter (\<lambda>b. \<not> within_win (missionTime a) b) xs)"

text \<open>The anomalies at the indices from \<open>k\<close> on that are not marked as used.\<close>

definition unvisited :: "anomaly list \<Rightarrow> nat set \<Rightarrow> nat \<Rightarrow> anomaly list" where
  "unvisited xs U k = map (\<lambda>j. xs ! j) (filter (\<lambda>j. j \<notin> U) [k..<length xs])"




definition single_record :: "real \<Rightarrow> string \<Rightarrow> jsnum \<Rightarrow> telemetry" where
  "single_record t param v = [''mission_time_s'' \<mapsto> Fin t, param \<mapsto> v]"

text \<open>The anomaly list of a run before it is clustered: the four detectors in the order
  in which \<open>detectAll\<close> calls them, on the working set \<open>w\<close> and the baselines \<open>st\<close>.\<close>

definition detections :: "telemetry list \<Rightarrow> (string \<times> baseline) list \<Rightarrow> anomaly list" where
  "detections w st =
     detectSustainedDeviations w st
       (detectRedlineViolations w (detectRateOfChange w st (detectZScoreAnomalies w st [])))"

text \<open>
  The percent-over of a redline anomaly as the code stores it: the stored exceedance is
  divided by the magnitude of the violated bound \<open>L\<close> of the parameter's table entry (the
  maximum for \<open>HIGH\<close>, the minimum for \<open>LOW\<close>), a bound of zero counting as one, the
  quotient is multiplied by 100, both in binary64 arithmetic, and the product is rounded
  to two decimals.
\<close>

definition percent_ok :: "anomaly \<Rightarrow> bool" where
  "percent_ok a =
     (\<exists>lm L e pct. (parameter a, lm) \<in> set REDLINE_LIMITS
        \<and> detail a = RedlineFields (Fin L) e (dir (detail a)) pct
        \<and> Fin L = (case dir (detail a) of HIGH \<Rightarrow> lim_max lm | LOW \<Rightarrow> lim_min lm)
        \<and> pct = toFixed2 (js_mul (js_div e (Fin (if L = 0 then 1 else \<bar>L\<bar>))) (Fin 100)))"

text \<open>The baseline record that \<open>computeStats_param\<close> stores for a non-empty list of values.\<close>

definition param_baseline :: "jsnum list \<Rightarrow> baseline" where
  "param_baseline values =
     (let sum = foldl js_add (Fin 0) values;
          mean = js_div sum (Fin (real (length values)));
          variance = js_div (foldl (\<lambda>a v. js_add a (js_pow2 (js_sub v mean))) (Fin 0) values)
                            (Fin (real (length values)))
      in \<lparr>mean = mean, std = js_sqrt variance,
          b_min = Math_min values, b_max = Math_max values\<rparr>)"

text \<open>
  The baseline as the specification words it: the sum of a list, added up from the left
  as \<^verbatim>\<open>reduce\<close> does, and the population variance \<open>\<Sum>(x - mean)\<^sup>2 / n\<close> about a given mean,
  all in binary64 arithmetic.
\<close>

definition js_sum :: "jsnum list \<Rightarrow> jsnum" where
  "js_sum vs = foldl js_add (Fin 0) vs"

definition population_variance :: "jsnum list \<Rightarrow> jsnum \<Rightarrow> jsnum" where
  "population_variance vs m =
     js_div (js_sum (map (\<lambda>x. js_pow2 (js_sub x m)) vs)) (Fin (real (length vs)))"

text \<open>Two records that differ at most under names that are neither the mission time nor a
  key of the redline table.\<close>

definition agree :: "telemetry \<Rightarrow> telemetry \<Rightarrow> bool" where
  "agree d d' = (d ''mission_time_s'' = d' ''mission_time_s''
                 \<and> (\<forall>p \<in> fst ` set REDLINE_LIMITS. d p = d' p))"

text \<open>The values of a parameter as the specification words them: the finite numbers.\<close>

definition finite_values :: "telemetry list \<Rightarrow> string \<Rightarrow> real list" where
  "finite_values ds param =
     concat (map (\<lambda>d. case d param of Some (Fin x) \<Rightarrow> [x] | _ \<Rightarrow> []) ds)"

text \<open>The anomalies of one type and one parameter.\<close>

definition of_kind :: "anomaly_type \<Rightarrow> string \<Rightarrow> anomaly \<Rightarrow> bool" where
  "of_kind ty p a = (type a = ty \<and> parameter a = p)"

text \<open>
  Thirty samples, all 100 except 180 at position \<open>k\<close>; thirty records that hold them as
  their velocity, one per second; and the z-score anomaly of the outlier.
\<close>

definition outlier_values :: "nat \<Rightarrow> real list" where
  "outlier_values k = (replicate 30 100)[k := 180]"

definition outlier_run :: "nat \<Rightarrow> telemetry list" where
  "outlier_run k =
     map (\<lambda>i. single_record (real i) ''velocity_ms'' (Fin (if i = k then 180 else 100))) [0..<30]"

definition outlier_anomaly :: "telemetry list \<Rightarrow> string \<Rightarrow> nat \<Rightarrow> anomaly" where
  "outlier_anomaly ds p k =
     \<lparr>type = Z_Score_Outlier, severity = CRITICAL, parameter = p, paramLabel = label_or p,
      a_value = Fin 180, detail = ZScoreFields (fl (10267 / 100)) (fl (539 / 100)),
      unit = unit_or p, missionTime = mission_time_s (ds ! k), index = k\<rparr>"

text \<open>
  The mean of these samples in binary64 is the number nearest to \<open>308 / 3\<close>. The
  differences of 100 and of 180 to it, which the subtraction gives without rounding, and
  the binary64 squares of the two differences:
\<close>

definition dev_low :: real where
  "dev_low = - (187649984473771 / 2 ^ 46)"

definition dev_high :: real where
  "dev_high = 5441849549739349 / 2 ^ 46"

definition sq_low :: real where
  "sq_low = 8006399337547577 / 2 ^ 50"

definition sq_high :: real where
  "sq_high = 3287784102967523 / 2 ^ 39"

text \<open>The test of the sustained-deviation loop at index \<open>i\<close>: the window has enough
  values and its deviation exceeds \<open>SIG\<close>.\<close>

definition triggers :: "telemetry list \<Rightarrow> string \<Rightarrow> baseline \<Rightarrow> nat \<Rightarrow> bool" where
  "triggers ds p s i =
     (case window_dev ds p s i of None \<Rightarrow> False | Some (wm, dev) \<Rightarrow> js_gt dev SIG)"

text \<open>The indices of the sustained-deviation anomalies of a parameter, in list order.\<close>

definition kind_indices :: "string \<Rightarrow> anomaly list \<Rightarrow> nat list" where
  "kind_indices p acc = map index (filter (of_kind Sustained_Deviation p) acc)"

text \<open>
  Two hundred records at mission time 0: velocity 10 in the first twenty, 0 in the rest.
  Their velocity baseline has mean 1 and standard deviation 3.
\<close>

definition excursion_run :: "telemetry list" where
  "excursion_run = replicate 20 (single_record 0 ''velocity_ms'' (Fin 10))
                   @ replicate 180 (single_record 0 ''velocity_ms'' (Fin 0))"

definition excursion_baseline :: baseline where
  "excursion_baseline = \<lparr>mean = Fin 1, std = Fin 3, b_min = Fin 0, b_max = Fin 10\<rparr>"

section \<open>Properties of the rounding\<close>

lemma pow2_powr: "pow2 k = 2 powr real_of_int k"
  by (simp add: pow2_def powr_int)

lemma floor_log2_eq:
  assumes "0 < x" "2 powr real_of_int e \<le> x" "x < 2 powr real_of_int (e + 1)"
  shows "\<lfloor>log 2 x\<rfloor> = e"
proof (rule floor_unique)
  show "real_of_int e \<le> log 2 x" using assms by (simp add: le_log_iff)
  show "log 2 x < real_of_int e + 1" using assms by (simp add: log_less_iff add.commute)
qed

lemma expo_eq:
  assumes "pow2 e \<le> \<bar>x\<bar>" "\<bar>x\<bar> < pow2 (e + 1)" "- 1022 \<le> e"
  shows "expo x = e"
proof -
  have "0 < \<bar>x\<bar>" using assms(1) by (smt (verit) powr_gt_zero pow2_powr)
  then show ?thesis
    using floor_log2_eq[of "\<bar>x\<bar>" e] assms by (simp add: expo_def pow2_powr)
qed

lemma fl_eval:
  assumes "pow2 e \<le> \<bar>x\<bar>" "\<bar>x\<bar> < pow2 (e + 1)" "- 1022 \<le> e"
    and "u = pow2 (e - 52)"
    and "\<bar>real_of_int (rne (x / u)) * u\<bar> < 2 ^ 1024"
  shows "fl x = Fin (real_of_int (rne (x / u)) * u)"
proof -
  have "x \<noteq> 0" using assms(1) by (smt (verit) powr_gt_zero pow2_powr)
  moreover have "ulp x = u" by (simp add: ulp_def expo_eq[OF assms(1,2,3)] assms(4))
  ultimately show ?thesis using assms(5) by (simp add: fl_def Let_def)
qed

lemma pow2_pos [simp]: "0 < pow2 k"
  by (simp add: pow2_powr)

lemma pow2_nz [simp]: "pow2 k \<noteq> 0"
  by (simp add: pow2_def)

lemma pow2_abs [simp]: "\<bar>pow2 k\<bar> = pow2 k"
  by (simp add: pow2_def)

lemma pow2_less_iff: "pow2 a < pow2 b \<longleftrightarrow> a < b"
  by (simp add: pow2_powr)

lemma pow2_add: "pow2 (a + b) = pow2 a * pow2 b"
  by (simp add: pow2_powr powr_add)

lemma pow2_mono: "a \<le> b \<Longrightarrow> pow2 a \<le> pow2 b"
  by (simp add: pow2_powr)

lemma pow2_nat: "0 \<le> k \<Longrightarrow> pow2 k = real_of_int (2 ^ nat k)"
  by (simp add: pow2_def)


lemma pow2_floor_log:
  assumes "x \<noteq> 0"
  shows "pow2 \<lfloor>log 2 \<bar>x\<bar>\<rfloor> \<le> \<bar>x\<bar>" and "\<bar>x\<bar> < pow2 (\<lfloor>log 2 \<bar>x\<bar>\<rfloor> + 1)"
proof -
  have p: "0 < \<bar>x\<bar>" using assms by simp
  have "2 powr real_of_int \<lfloor>log 2 \<bar>x\<bar>\<rfloor> \<le> 2 powr log 2 \<bar>x\<bar>"
    by (intro powr_mono) simp_all
  then show "pow2 \<lfloor>log 2 \<bar>x\<bar>\<rfloor> \<le> \<bar>x\<bar>" using p by (simp add: pow2_powr)
  have "log 2 \<bar>x\<bar> < real_of_int (\<lfloor>log 2 \<bar>x\<bar>\<rfloor> + 1)"
    using real_of_int_floor_add_one_gt[of "log 2 \<bar>x\<bar>"] by simp
  then have "2 powr log 2 \<bar>x\<bar> < 2 powr real_of_int (\<lfloor>log 2 \<bar>x\<bar>\<rfloor> + 1)"
    by (intro powr_less_mono) simp_all
  then show "\<bar>x\<bar> < pow2 (\<lfloor>log 2 \<bar>x\<bar>\<rfloor> + 1)" using p by (simp add: pow2_powr)
qed

lemma rne_error: "\<bar>real_of_int (rne q) - q\<bar> \<le> 1 / 2"
  unfolding rne_def Let_def by (auto; linarith)

lemma rne_int [simp]: "rne (real_of_int n) = n"
  by (simp add: rne_def)



text \<open>Numbers of the form \<open>m \<cdot> 2\<^sup>k\<close> with a mantissa below \<open>2\<^sup>5\<^sup>3\<close> are not rounded.\<close>

lemma fl_dyadic:
  assumes m: "\<bar>m\<bar> < 2 ^ 53" and k: "- 1074 \<le> k"
    and b: "\<bar>real_of_int m * pow2 k\<bar> < 2 ^ 1024"
  shows "fl (real_of_int m * pow2 k) = Fin (real_of_int m * pow2 k)"
proof (cases "m = 0")
  case True
  then show ?thesis by (simp add: fl_def)
next
  case False
  let ?x = "real_of_int m * pow2 k"
  have x0: "?x \<noteq> 0" using False by simp
  have ax: "\<bar>?x\<bar> = \<bar>real_of_int m\<bar> * pow2 k" by (simp add: abs_mult)
  have "\<bar>real_of_int m\<bar> < 2 ^ 53" using m by (metis of_int_abs of_int_less_numeral_power_cancel_iff)
  then have "\<bar>?x\<bar> < 2 ^ 53 * pow2 k" unfolding ax by (simp add: mult_strict_right_mono)
  also have "\<dots> = pow2 (53 + k)"
  proof -
    have "(2::real) ^ 53 = pow2 53" by (simp add: pow2_def)
    then show ?thesis by (simp only: pow2_add)
  qed
  finally have up: "\<bar>?x\<bar> < pow2 (53 + k)" .
  have "pow2 \<lfloor>log 2 \<bar>?x\<bar>\<rfloor> < pow2 (53 + k)"
    using pow2_floor_log(1)[OF x0] up by linarith
  then have "\<lfloor>log 2 \<bar>?x\<bar>\<rfloor> < 53 + k"
    by (simp only: pow2_less_iff)
  then have j: "expo ?x - 52 \<le> k" using k by (simp add: expo_def)
  define d where "d = k - (expo ?x - 52)"
  define u where "u = ulp ?x"
  define p where "p = pow2 k"
  have d0: "0 \<le> d" using j by (simp add: d_def)
  have up: "0 < u" by (simp add: u_def ulp_def)
  have "p = pow2 d * u"
    by (simp add: p_def u_def ulp_def d_def pow2_add[symmetric])
  then have pk: "p = real_of_int (2 ^ nat d) * u" using d0 by (simp add: pow2_nat)
  have q: "real_of_int m * p / u = real_of_int (m * 2 ^ nat d)"
    using up by (simp add: pk)
  have "real_of_int (rne (real_of_int m * p / u)) * u = real_of_int m * p"
    unfolding q rne_int using up by (simp add: pk)
  then have "real_of_int (rne (?x / ulp ?x)) * ulp ?x = ?x"
    by (simp add: p_def u_def)
  then show ?thesis using x0 b by (simp add: fl_def Let_def)
qed

lemma fl_int:
  assumes "\<bar>n\<bar> < 2 ^ 53"
  shows "fl (real_of_int n) = Fin (real_of_int n)"
proof -
  have "\<bar>real_of_int n\<bar> < 2 ^ 53" using assms by (metis of_int_abs of_int_less_numeral_power_cancel_iff)
  moreover have "(2::real) ^ 53 < 2 ^ 1024" by (rule power_strict_increasing) simp_all
  ultimately have "\<bar>real_of_int n * pow2 0\<bar> < 2 ^ 1024"
    by (simp add: pow2_def)
  then show ?thesis using fl_dyadic[OF assms, of 0] by (simp add: pow2_def)
qed

text \<open>The relative error of a rounding in the normal range.\<close>

lemma fl_rel:
  assumes lo: "pow2 (- 1022) \<le> \<bar>x\<bar>" and hi: "\<bar>x\<bar> < pow2 1023"
  shows "\<exists>r. fl x = Fin r \<and> \<bar>r - x\<bar> \<le> \<bar>x\<bar> / 2 ^ 53"
proof -
  have x0: "x \<noteq> 0" using lo by (smt (verit) pow2_pos)
  let ?L = "\<lfloor>log 2 \<bar>x\<bar>\<rfloor>"
  have "pow2 (- 1022) < pow2 (?L + 1)" using lo pow2_floor_log(2)[OF x0] by linarith
  then have "- 1022 < ?L + 1" by (simp only: pow2_less_iff)
  then have L: "- 1022 \<le> ?L" by simp
  then have e: "expo x = ?L" by (simp add: expo_def)
  define u where "u = ulp x"
  have u: "u = pow2 (?L - 52)" by (simp add: u_def ulp_def e)
  have up: "0 < u" by (simp add: u)
  have "pow2 ?L = pow2 52 * u" by (simp add: u pow2_add[symmetric])
  then have ux: "2 ^ 52 * u \<le> \<bar>x\<bar>" using pow2_floor_log(1)[OF x0] by (simp add: pow2_def)
  define r where "r = real_of_int (rne (x / u)) * u"
  have "r - x = (real_of_int (rne (x / u)) - x / u) * u"
    using up by (simp add: r_def left_diff_distrib)
  then have "\<bar>r - x\<bar> = \<bar>real_of_int (rne (x / u)) - x / u\<bar> * u"
    using up by (simp add: abs_mult)
  also have "\<dots> \<le> 1 / 2 * u" using rne_error[of "x / u"] up by (intro mult_right_mono) simp_all
  finally have err: "\<bar>r - x\<bar> \<le> u / 2" by simp
  have rel: "\<bar>r - x\<bar> \<le> \<bar>x\<bar> / 2 ^ 53" using err ux by simp
  have "\<bar>r\<bar> \<le> \<bar>x\<bar> + \<bar>x\<bar> / 2 ^ 53" using rel by linarith
  also have "\<dots> < pow2 1023 + pow2 1023 / 2 ^ 53" using hi by (intro add_strict_mono) simp_all
  also have "\<dots> \<le> 2 ^ 1024" by (simp add: pow2_def)
  finally have "\<not> 2 ^ 1024 \<le> \<bar>r\<bar>" by simp
  then have "fl x = Fin r" using x0 by (simp add: fl_def Let_def r_def u_def)
  then show ?thesis using rel by blast
qed

lemma fl_zero [simp]: "fl 0 = Fin 0"
  by (simp add: fl_def)

lemma fl_one [simp]: "fl 1 = Fin 1"
  using fl_int[of 1] by simp

lemma fl_numeral [simp]: "(numeral n :: int) < 2 ^ 53 \<Longrightarrow> fl (numeral n) = Fin (numeral n)"
  using fl_int[of "numeral n"] by simp

lemma fl_neg_numeral [simp]:
  "(numeral n :: int) < 2 ^ 53 \<Longrightarrow> fl (- numeral n) = Fin (- numeral n)"
  using fl_int[of "- numeral n"] by simp

lemma fl_minus_one [simp]: "fl (- 1) = Fin (- 1)"
  using fl_int[of "- 1"] by simp

lemma fl_nat: "n < 2 ^ 53 \<Longrightarrow> fl (real n) = Fin (real n)"
  using fl_int[of "int n"] by simp








text \<open>Sums of natural numbers below \<open>2\<^sup>5\<^sup>3\<close> are exact.\<close>

lemma foldl_add_map_nat:
  "foldl js_add a (map (\<lambda>n. Fin (real n)) ns) = foldl (\<lambda>acc n. js_add acc (Fin (real n))) a ns"
  by (induction ns arbitrary: a) simp_all

lemma foldl_add_nat:
  assumes "\<And>v. v \<in> set vs \<Longrightarrow> g v = Fin (real (h v))"
      and "a + sum_list (map h vs) < 2 ^ 53"
  shows "foldl (\<lambda>acc v. js_add acc (g v)) (Fin (real a)) vs = Fin (real (a + sum_list (map h vs)))"
  using assms
proof (induction vs arbitrary: a)
  case Nil
  then show ?case by simp
next
  case (Cons v vs)
  have g: "g v = Fin (real (h v))" using Cons.prems(1) by simp
  have b: "a + h v < 2 ^ 53" using Cons.prems(2) by simp
  have "js_add (Fin (real a)) (g v) = Fin (real (a + h v))"
    using fl_nat[OF b] by (simp add: g)
  moreover have "foldl (\<lambda>acc v. js_add acc (g v)) (Fin (real (a + h v))) vs
      = Fin (real (a + h v + sum_list (map h vs)))"
    using Cons.prems by (intro Cons.IH) (simp_all add: add.assoc)
  ultimately show ?case by (simp add: add.assoc)
qed

lemma js_sum_nat:
  assumes "sum_list ns < 2 ^ 53"
  shows "js_sum (map (\<lambda>n. Fin (real n)) ns) = Fin (real (sum_list ns))"
proof -
  have "foldl (\<lambda>acc n. js_add acc (Fin (real n))) (Fin (real 0)) ns
      = Fin (real (0 + sum_list (map (\<lambda>n. n) ns)))"
    by (rule foldl_add_nat) (use assms in simp_all)
  then have "foldl (\<lambda>acc n. js_add acc (Fin (real n))) (Fin 0) ns = Fin (real (sum_list ns))"
    by simp
  then show ?thesis unfolding js_sum_def foldl_add_map_nat .
qed

text \<open>Halves of small integers are not rounded.\<close>

lemma fl_half:
  assumes "\<bar>m\<bar> \<le> 20"
  shows "fl (real_of_int m / 2) = Fin (real_of_int m / 2)"
proof -
  have "\<bar>m\<bar> < 2 ^ 53" using assms by simp
  moreover have "\<bar>real_of_int m\<bar> \<le> 20" using assms by linarith
  then have "\<bar>real_of_int m * pow2 (- 1)\<bar> < 2 ^ 1024" by (simp add: pow2_def)
  ultimately show ?thesis using fl_dyadic[of m "- 1"] by (simp add: pow2_def)
qed

text \<open>Enclosures: a rounding moves a positive number by at most the factor \<open>1 \<plusminus> 2\<^sup>-\<^sup>5\<^sup>3\<close>, and
  a sum of \<open>n\<close> numbers of at least 1, added up from the left, by at most \<open>1 \<plusminus> n \<cdot> 2\<^sup>-\<^sup>5\<^sup>2\<close>.\<close>

lemma rel_bounds:
  fixes x r :: real
  assumes "0 < x" "\<bar>r - x\<bar> \<le> \<bar>x\<bar> / 2 ^ 53"
  shows "x * (1 - 1 / 2 ^ 53) \<le> r" "r \<le> x * (1 + 1 / 2 ^ 53)"
proof -
  define c where "c = x / 2 ^ 53"
  have a: "x * (1 - 1 / 2 ^ 53) = x - c" "x * (1 + 1 / 2 ^ 53) = x + c"
    by (simp_all add: c_def algebra_simps)
  have "\<bar>r - x\<bar> \<le> c" using assms by (simp add: c_def)
  then show "x * (1 - 1 / 2 ^ 53) \<le> r" "r \<le> x * (1 + 1 / 2 ^ 53)"
    unfolding a by linarith+
qed

lemma fl_enclose:
  assumes "lo \<le> x" "x \<le> hi" "1 / 2 ^ 40 \<le> lo" "hi \<le> 2 ^ 40"
  shows "\<exists>r. fl x = Fin r \<and> lo * (1 - 1 / 2 ^ 53) \<le> r \<and> r \<le> hi * (1 + 1 / 2 ^ 53)"
proof -
  have lo0: "0 < lo" using assms(3) by (smt (verit) zero_less_divide_1_iff zero_less_power)
  have x0: "0 < x" using lo0 assms(1) by simp
  have "pow2 (- 1022) \<le> pow2 (- 40)" by (rule pow2_mono) simp
  also have "pow2 (- 40) = 1 / 2 ^ 40" by (simp add: pow2_def)
  finally have "pow2 (- 1022) \<le> \<bar>x\<bar>" using assms(1,3) x0 by simp
  moreover have "(2::real) ^ 40 = pow2 40" by (simp add: pow2_def)
  then have "(2::real) ^ 40 < pow2 1023" by (simp only: pow2_less_iff)
  then have "\<bar>x\<bar> < pow2 1023" using assms(2,4) x0 by simp
  ultimately obtain r where r: "fl x = Fin r" "\<bar>r - x\<bar> \<le> \<bar>x\<bar> / 2 ^ 53"
    using fl_rel[of x] by blast
  have "x * (1 - 1 / 2 ^ 53) \<le> r" "r \<le> x * (1 + 1 / 2 ^ 53)"
    using rel_bounds[OF x0 r(2)] by simp_all
  moreover have "lo * (1 - 1 / 2 ^ 53) \<le> x * (1 - 1 / 2 ^ 53)"
    using assms(1) by (intro mult_right_mono) simp_all
  moreover have "x * (1 + 1 / 2 ^ 53) \<le> hi * (1 + 1 / 2 ^ 53)"
    using assms(2) by (intro mult_right_mono) simp_all
  ultimately show ?thesis using r(1) by (intro exI[of _ r]) linarith
qed

lemma fl_enclose_abs:
  assumes "lo \<le> \<bar>x\<bar>" "\<bar>x\<bar> \<le> hi" "1 / 2 ^ 40 \<le> lo" "hi \<le> 2 ^ 40"
  shows "\<exists>r. fl x = Fin r \<and> lo * (1 - 1 / 2 ^ 53) \<le> \<bar>r\<bar> \<and> \<bar>r\<bar> \<le> hi * (1 + 1 / 2 ^ 53)"
proof -
  have lo0: "0 < lo" using assms(3) by (smt (verit) zero_less_divide_1_iff zero_less_power)
  have x0: "0 < \<bar>x\<bar>" using lo0 assms(1) by linarith
  have "pow2 (- 1022) \<le> pow2 (- 40)" by (rule pow2_mono) simp
  also have "pow2 (- 40) = 1 / 2 ^ 40" by (simp add: pow2_def)
  finally have "pow2 (- 1022) \<le> \<bar>x\<bar>" using assms(1,3) by simp
  moreover have "(2::real) ^ 40 = pow2 40" by (simp add: pow2_def)
  then have "(2::real) ^ 40 < pow2 1023" by (simp only: pow2_less_iff)
  then have "\<bar>x\<bar> < pow2 1023" using assms(2,4) by simp
  ultimately obtain r where r: "fl x = Fin r" "\<bar>r - x\<bar> \<le> \<bar>x\<bar> / 2 ^ 53"
    using fl_rel[of x] by blast
  have "\<bar>\<bar>r\<bar> - \<bar>x\<bar>\<bar> \<le> \<bar>r - x\<bar>" by (rule abs_triangle_ineq3)
  then have "\<bar>\<bar>r\<bar> - \<bar>x\<bar>\<bar> \<le> \<bar>\<bar>x\<bar>\<bar> / 2 ^ 53" using r(2) by simp
  from rel_bounds[OF x0 this]
  have "\<bar>x\<bar> * (1 - 1 / 2 ^ 53) \<le> \<bar>r\<bar>" "\<bar>r\<bar> \<le> \<bar>x\<bar> * (1 + 1 / 2 ^ 53)" by simp_all
  moreover have "lo * (1 - 1 / 2 ^ 53) \<le> \<bar>x\<bar> * (1 - 1 / 2 ^ 53)"
    using assms(1) by (intro mult_right_mono) simp_all
  moreover have "\<bar>x\<bar> * (1 + 1 / 2 ^ 53) \<le> hi * (1 + 1 / 2 ^ 53)"
    using assms(2) by (intro mult_right_mono) simp_all
  ultimately show ?thesis using r(1) by (intro exI[of _ r]) linarith
qed

lemma foldl_add_enclose:
  assumes "\<forall>x \<in> set xs. 1 \<le> x" and "0 \<le> a"
      and "(a + sum_list xs) * (1 + real (length xs) / 2 ^ 52) \<le> 2 ^ 1000"
      and "length xs \<le> 2 ^ 52"
  shows "\<exists>s. foldl js_add (Fin a) (map Fin xs) = Fin s
           \<and> (a + sum_list xs) * (1 - real (length xs) / 2 ^ 52) \<le> s
           \<and> s \<le> (a + sum_list xs) * (1 + real (length xs) / 2 ^ 52)"
  using assms
proof (induction xs arbitrary: a)
  case Nil
  then show ?case by simp
next
  case (Cons x xs)
  define e :: real where "e = 1 / 2 ^ 53"
  define d :: real where "d = 1 / 2 ^ 52"
  define N where "N = real (length xs)"
  define S where "S = sum_list xs"
  define t where "t = a + x"
  have de: "d = 2 * e" by (simp add: d_def e_def)
  have e0: "0 < e" by (simp add: e_def)
  have N0: "0 \<le> N" by (simp add: N_def)
  have "real (length (x # xs)) \<le> 2 ^ 52" using Cons.prems(4) by (metis of_nat_le_iff of_nat_numeral of_nat_power)
  then have Nd: "(N + 1) * d \<le> 1" by (simp add: N_def d_def field_simps)
  then have Nd1: "N * d \<le> 1" using de e0 by (simp add: algebra_simps)
  have S0: "0 \<le> S" unfolding S_def using Cons.prems(1) by (intro sum_list_nonneg) auto
  have x1: "1 \<le> x" using Cons.prems(1) by simp
  have t1: "1 \<le> t" using x1 Cons.prems(2) by (simp add: t_def)
  have big: "(t + S) * (1 + (N + 1) * d) \<le> 2 ^ 1000"
    using Cons.prems(3) by (simp add: t_def S_def N_def d_def algebra_simps)
  have "t + S \<le> (t + S) * (1 + (N + 1) * d)"
    using t1 S0 N0 de e0 by (simp add: algebra_simps)
  then have "t \<le> 2 ^ 1000" using big S0 by linarith
  moreover have "(2::real) ^ 1000 = pow2 1000" by (simp add: pow2_def)
  then have "(2::real) ^ 1000 < pow2 1023" by (simp only: pow2_less_iff)
  ultimately have thi: "\<bar>t\<bar> < pow2 1023" using t1 by simp
  have "pow2 (- 1022) \<le> pow2 0" by (rule pow2_mono) simp
  then have tlo: "pow2 (- 1022) \<le> \<bar>t\<bar>" using t1 by (simp add: pow2_def)
  obtain r where r: "fl t = Fin r" "\<bar>r - t\<bar> \<le> \<bar>t\<bar> / 2 ^ 53"
    using fl_rel[OF tlo thi] by blast
  have tpos: "0 < t" using t1 by simp
  have rlo: "t * (1 - e) \<le> r" and rhi: "r \<le> t * (1 + e)"
    using rel_bounds[OF tpos r(2)] unfolding e_def by simp_all
  have r0: "0 \<le> r"
  proof -
    have "0 \<le> t * (1 - e)" using t1 by (simp add: e_def)
    then show ?thesis using rlo by linarith
  qed
  have Se: "0 \<le> S * e" using S0 e0 by simp
  have Blo: "(t + S) * (1 - e) \<le> r + S"
    using rlo Se by (simp add: algebra_simps)
  have Bhi: "r + S \<le> (t + S) * (1 + e)"
    using rhi Se by (simp add: algebra_simps)
  have tS0: "0 \<le> t + S" using t1 S0 by simp
  have f1: "(1 + e) * (1 + N * d) \<le> 1 + (N + 1) * d"
  proof -
    have "e * (N * d) \<le> e * 1" using Nd1 e0 by (intro mult_left_mono) simp_all
    then show ?thesis by (simp add: de algebra_simps)
  qed
  have f2: "1 - (N + 1) * d \<le> (1 - e) * (1 - N * d)"
  proof -
    have p: "0 \<le> e * (N * d)" using e0 N0 de by simp
    have ed: "e \<le> d" using e0 de by simp
    have "(1 - e) * (1 - N * d) = 1 - N * d - e + e * (N * d)" by (simp add: algebra_simps)
    moreover have "(N + 1) * d = N * d + d" by (simp add: algebra_simps)
    ultimately show ?thesis using p ed by linarith
  qed
  have up: "(r + S) * (1 + N * d) \<le> (t + S) * (1 + (N + 1) * d)"
  proof -
    have "(r + S) * (1 + N * d) \<le> ((t + S) * (1 + e)) * (1 + N * d)"
      using Bhi N0 de e0 by (intro mult_right_mono) simp_all
    also have "\<dots> = (t + S) * ((1 + e) * (1 + N * d))" by simp
    also have "\<dots> \<le> (t + S) * (1 + (N + 1) * d)"
      using f1 tS0 by (rule mult_left_mono)
    finally show ?thesis .
  qed
  have low: "(t + S) * (1 - (N + 1) * d) \<le> (r + S) * (1 - N * d)"
  proof -
    have "(t + S) * (1 - (N + 1) * d) \<le> (t + S) * ((1 - e) * (1 - N * d))"
      using f2 tS0 by (rule mult_left_mono)
    also have "\<dots> = ((t + S) * (1 - e)) * (1 - N * d)" by simp
    also have "\<dots> \<le> (r + S) * (1 - N * d)"
      using Blo Nd1 by (intro mult_right_mono) simp_all
    finally show ?thesis .
  qed
  have "\<exists>s. foldl js_add (Fin r) (map Fin xs) = Fin s
           \<and> (r + sum_list xs) * (1 - real (length xs) / 2 ^ 52) \<le> s
           \<and> s \<le> (r + sum_list xs) * (1 + real (length xs) / 2 ^ 52)"
  proof (rule Cons.IH)
    show "\<forall>x \<in> set xs. 1 \<le> x" using Cons.prems(1) by simp
    show "0 \<le> r" by (rule r0)
    show "(r + sum_list xs) * (1 + real (length xs) / 2 ^ 52) \<le> 2 ^ 1000"
      using up big by (simp add: S_def N_def d_def)
    show "length xs \<le> 2 ^ 52" using Cons.prems(4) by simp
  qed
  then obtain s where s: "foldl js_add (Fin r) (map Fin xs) = Fin s"
      "(r + S) * (1 - N * d) \<le> s" "s \<le> (r + S) * (1 + N * d)"
    by (auto simp: S_def N_def d_def)
  have "foldl js_add (Fin a) (map Fin (x # xs)) = Fin s"
    using s(1) r(1) by (simp add: t_def)
  moreover have "(a + sum_list (x # xs)) * (1 - real (length (x # xs)) / 2 ^ 52) \<le> s"
    using low s(2) by (simp add: t_def S_def N_def d_def algebra_simps)
  moreover have "s \<le> (a + sum_list (x # xs)) * (1 + real (length (x # xs)) / 2 ^ 52)"
    using up s(3) by (simp add: t_def S_def N_def d_def algebra_simps)
  ultimately show ?case by blast
qed

section \<open>Properties of the clustering\<close>

declare String_of_nat.simps [simp del]

lemma absorb_step_apply:
  "absorb_step xs j (ev, U) =
     (if j \<notin> U \<and> within_win (startTime ev) (xs ! j)
      then (ev\<lparr>ev_anomalies := ev_anomalies ev @ [xs ! j],
               endTime := js_max (endTime ev) (missionTime (xs ! j))\<rparr>, insert j U)
      else (ev, U))"
  by (simp add: absorb_step_def within_win_def)

lemma absorb_fold:
  "distinct js \<Longrightarrow>
   fold (absorb_step xs) js (ev, U) =
     (ev\<lparr>ev_anomalies := ev_anomalies ev
            @ map (\<lambda>j. xs ! j) (filter (\<lambda>j. j \<notin> U \<and> within_win (startTime ev) (xs ! j)) js),
         endTime := foldl js_max (endTime ev)
            (map (\<lambda>j. missionTime (xs ! j)) (filter (\<lambda>j. j \<notin> U \<and> within_win (startTime ev) (xs ! j)) js))\<rparr>,
      U \<union> set (filter (\<lambda>j. j \<notin> U \<and> within_win (startTime ev) (xs ! j)) js))"
proof (induction js arbitrary: ev U)
  case Nil
  then show ?case by simp
next
  case (Cons j js)
  have d: "distinct js" and nj: "j \<notin> set js" using Cons.prems by auto
  have eq: "\<And>P. filter (\<lambda>k. k \<noteq> j \<and> k \<notin> U \<and> P k) js = filter (\<lambda>k. k \<notin> U \<and> P k) js"
    using nj by (auto intro: filter_cong)
  have eq2: "\<And>P. {k \<in> set js. k \<noteq> j \<and> k \<notin> U \<and> P k} = {k \<in> set js. k \<notin> U \<and> P k}"
    using nj by auto
  show ?case
  proof (cases "j \<notin> U \<and> within_win (startTime ev) (xs ! j)")
    case True
    then show ?thesis
      by (simp add: absorb_step_apply Cons.IH[OF d] eq eq2)
  next
    case False
    then show ?thesis
      by (auto simp add: absorb_step_apply Cons.IH[OF d])
  qed
qed

lemma unvisited_ge: "length xs \<le> k \<Longrightarrow> unvisited xs U k = []"
  by (simp add: unvisited_def)

lemma unvisited_step:
  "k < length xs \<Longrightarrow>
   unvisited xs U k = (if k \<in> U then unvisited xs U (Suc k) else xs ! k # unvisited xs U (Suc k))"
  by (simp add: unvisited_def upt_conv_Cons)

lemma cluster_fold:
  "snd (snd (fold (cluster_step xs) [k..<length xs] (eid, U, evs)))
     = evs @ greedy_events eid (unvisited xs U k)"
proof (induction "length xs - k" arbitrary: k eid U evs)
  case 0
  then show ?case by (simp add: unvisited_ge)
next
  case (Suc n)
  then have k: "k < length xs" and n: "n = length xs - Suc k" by auto
  have up: "[k..<length xs] = k # [Suc k..<length xs]" using k by (simp add: upt_conv_Cons)
  show ?case
  proof (cases "k \<in> U")
    case True
    then show ?thesis
      using Suc.hyps(1)[OF n] by (simp add: up cluster_step_def unvisited_step[OF k])
  next
    case False
    let ?t = "missionTime (xs ! k)"
    let ?A = "filter (\<lambda>j. j \<notin> U \<and> within_win ?t (xs ! j)) [Suc k..<length xs]"
    let ?ev0 = "\<lparr>ev_id = event_id eid, ev_anomalies = [xs ! k], startTime = ?t, endTime = ?t\<rparr>"
    let ?rest = "unvisited xs U (Suc k)"
    have A: "filter (\<lambda>j. j \<notin> insert k U \<and> within_win (startTime ?ev0) (xs ! j)) [Suc k..<length xs] = ?A"
      by (rule filter_cong) auto
    have inn: "map (\<lambda>j. xs ! j) ?A = filter (within_win ?t) ?rest"
      by (simp add: unvisited_def filter_map comp_def)
    have tm: "map (\<lambda>j. missionTime (xs ! j)) ?A = map missionTime (filter (within_win ?t) ?rest)"
      unfolding inn[symmetric] by simp
    have out: "unvisited xs (insert k U \<union> set ?A) (Suc k)
                 = filter (\<lambda>b. \<not> within_win ?t b) ?rest"
      unfolding unvisited_def filter_map comp_def filter_filter
      by (rule arg_cong[where f = "map _"], rule filter_cong) auto
    have inner: "fold (absorb_step xs) [Suc k..<length xs] (?ev0, insert k U)
        = (\<lparr>ev_id = event_id eid, ev_anomalies = xs ! k # filter (within_win ?t) ?rest,
            startTime = ?t,
            endTime = foldl js_max ?t (map missionTime (filter (within_win ?t) ?rest))\<rparr>,
           insert k U \<union> set ?A)"
      unfolding absorb_fold[OF distinct_upt] A inn tm by simp
    have k1: "[k + 1..<length xs] = [Suc k..<length xs]" by simp
    have step: "cluster_step xs k (eid, U, evs)
        = (eid + 1, insert k U \<union> set ?A,
           evs @ [greedy_event eid (xs ! k) (filter (within_win ?t) ?rest)])"
      using False unfolding cluster_step_def greedy_event_def
      by (simp only: prod.case if_False Let_def k1 inner)
    have "snd (snd (fold (cluster_step xs) [k..<length xs] (eid, U, evs)))
        = snd (snd (fold (cluster_step xs) [Suc k..<length xs] (cluster_step xs k (eid, U, evs))))"
      unfolding up by simp
    also have "\<dots> = (evs @ [greedy_event eid (xs ! k) (filter (within_win ?t) ?rest)])
         @ greedy_events (eid + 1) (filter (\<lambda>b. \<not> within_win ?t b) ?rest)"
      unfolding step Suc.hyps(1)[OF n] out ..
    also have "\<dots> = evs @ greedy_events eid (unvisited xs U k)"
      using False by (simp add: unvisited_step[OF k])
    finally show ?thesis .
  qed
qed

lemma unvisited_all: "unvisited xs {} 0 = xs"
  by (simp add: unvisited_def map_nth)

lemma clusterAnomalies_events:
  "events (clusterAnomalies s) = Some (greedy_events 1 (sort_anomalies (anomalies s)))"
  using cluster_fold[of "sort_anomalies (anomalies s)" 0 1 "{}" "[]"]
  by (auto simp add: clusterAnomalies_def unvisited_all Let_def split: prod.splits)






lemma mset_insert_sorted: "mset (insert_sorted a xs) = add_mset a (mset xs)"
  by (induction xs) auto

lemma mset_sort_anomalies: "mset (sort_anomalies xs) = mset xs"
  by (induction xs) (simp_all add: sort_anomalies_def mset_insert_sorted)

lemma length_sort_anomalies: "length (sort_anomalies xs) = length xs"
  using mset_sort_anomalies[of xs] by (metis size_mset)

lemma set_sort_anomalies: "set (sort_anomalies xs) = set xs"
  using mset_sort_anomalies[of xs] by (metis set_mset_mset)



lemma ev_anomalies_finish [simp]: "ev_anomalies (finish_event ev) = ev_anomalies ev"
  by (simp add: finish_event_def cluster.defs event.defs)

lemma times_finish [simp]:
  "startTime (finish_event ev) = startTime ev" "endTime (finish_event ev) = endTime ev"
  "ev_id (finish_event ev) = ev_id ev"
  by (simp_all add: finish_event_def cluster.defs event.defs)




lemma anomalies_clusterAnomalies:
  "anomalies (clusterAnomalies s) = sort_anomalies (anomalies s)"
  by (simp add: clusterAnomalies_def Let_def split: prod.splits)


text \<open>
  The window test is made on the rounded difference: the binary64 numbers nearest to
  10.001 and 0.001 differ by less than 10, their difference rounds to 10, and an anomaly at
  the one time is not absorbed by an event that starts at the other.
\<close>

lemma fl_1_1000: "fl (1 / 1000) = Fin (1152921504606847 / 2 ^ 60)"
  by (subst fl_eval[where e = "-10" and u = "1 / 2 ^ 62"]) (simp_all add: rne_def pow2_def)

lemma fl_10001_1000: "fl (10001 / 1000) = Fin (5630062484166541 / 2 ^ 49)"
  by (subst fl_eval[where e = "3" and u = "1 / 2 ^ 49"]) (simp_all add: rne_def pow2_def)

lemma fl_window_difference:
  "fl (5630062484166541 / 2 ^ 49 + - (1152921504606847 / 2 ^ 60)) = Fin 10"
  by (subst fl_eval[where e = "3" and u = "1 / 2 ^ 49"]) (simp_all add: rne_def pow2_def)

lemma window_rounding_example:
  "js_sub (fl (10001 / 1000)) (fl (1 / 1000)) = Fin 10"
  "\<not> within_win (fl (1 / 1000)) (a\<lparr>missionTime := fl (10001 / 1000)\<rparr>)"
proof -
  show d: "js_sub (fl (10001 / 1000)) (fl (1 / 1000)) = Fin 10"
    unfolding fl_10001_1000 fl_1_1000 js_sub_def js_neg.simps js_add.simps
    by (rule fl_window_difference)
  show "\<not> within_win (fl (1 / 1000)) (a\<lparr>missionTime := fl (10001 / 1000)\<rparr>)"
    by (simp add: within_win_def d js_lt_def TIME_WIN_def)
qed



section \<open>What the detectors add\<close>

lemma zscore_sample_new:
  "set (zscore_sample ds p s i acc) \<subseteq> set acc \<union> {a. type a = Z_Score_Outlier \<and> parameter a = p \<and> index a = i
                      \<and> missionTime a = mission_time_s (ds ! i)}"
  by (auto simp: zscore_sample_def Let_def split: option.splits)

lemma roc_sample_new:
  "set (roc_sample ds p th i acc) \<subseteq> set acc \<union> {a. type a = Rapid_Change \<and> parameter a = p \<and> index a = i
                      \<and> missionTime a = mission_time_s (ds ! i)}"
  by (auto simp: roc_sample_def Let_def split: option.splits)

lemma sustained_sample_new:
  "set (sustained_sample ds p s i acc) \<subseteq> set acc \<union> {a. type a = Sustained_Deviation \<and> parameter a = p \<and> index a = i
                      \<and> missionTime a = mission_time_s (ds ! i)}"
  by (auto simp: sustained_sample_def Let_def split: option.splits)

lemma redline_sample_new:
  "set (redline_sample ds p lm i acc) \<subseteq> set acc \<union> {a. type a = Redline_Violation \<and> parameter a = p \<and> index a = i
                      \<and> missionTime a = mission_time_s (ds ! i)}"
  by (auto simp: redline_sample_def Let_def split: option.splits)

lemma fold_new:
  assumes "\<And>x acc. x \<in> set xs \<Longrightarrow> set (f x acc) \<subseteq> set acc \<union> N"
  shows "set (fold f xs acc) \<subseteq> set acc \<union> N"
proof -
  have "set (fold f xs acc) \<subseteq> set acc \<union> N"
    using assms
  proof (induction xs arbitrary: acc)
    case Nil
    then show ?case by simp
  next
    case (Cons x xs)
    have "set (fold f xs (f x acc)) \<subseteq> set (f x acc) \<union> N"
      using Cons.IH Cons.prems by simp
    moreover have "set (f x acc) \<subseteq> set acc \<union> N" using Cons.prems by simp
    ultimately show ?case by auto
  qed
  then show ?thesis .
qed

lemma detectZScore_new:
  "set (detectZScoreAnomalies ds st acc)
     \<subseteq> set acc \<union> {a. type a = Z_Score_Outlier \<and> parameter a \<in> fst ` set st \<and> index a < length ds
                               \<and> missionTime a = mission_time_s (ds ! index a)}"
  unfolding detectZScoreAnomalies_def
proof (rule fold_new)
  fix x acc assume x: "x \<in> set st"
  obtain p s where ps: "x = (p, s)" by (cases x)
  have "set (fold (zscore_sample ds p s) [0..<length ds] acc)
          \<subseteq> set acc \<union> {a. type a = Z_Score_Outlier \<and> parameter a \<in> fst ` set st \<and> index a < length ds
                               \<and> missionTime a = mission_time_s (ds ! index a)}"
    by (rule fold_new) (use zscore_sample_new[of ds p s] x ps in force)
  then show "set (detectZScore_param ds x acc)
          \<subseteq> set acc \<union> {a. type a = Z_Score_Outlier \<and> parameter a \<in> fst ` set st \<and> index a < length ds
                               \<and> missionTime a = mission_time_s (ds ! index a)}"
    by (simp add: detectZScore_param_def ps)
qed

lemma detectRateOfChange_new:
  "set (detectRateOfChange ds st acc)
     \<subseteq> set acc \<union> {a. type a = Rapid_Change \<and> parameter a \<in> fst ` set st \<and> index a < length ds
                               \<and> missionTime a = mission_time_s (ds ! index a)}"
  unfolding detectRateOfChange_def
proof (rule fold_new)
  fix x acc assume x: "x \<in> set st"
  obtain p s where ps: "x = (p, s)" by (cases x)
  have "\<And>th. set (fold (roc_sample ds p th) [1..<length ds] acc)
          \<subseteq> set acc \<union> {a. type a = Rapid_Change \<and> parameter a \<in> fst ` set st \<and> index a < length ds
                               \<and> missionTime a = mission_time_s (ds ! index a)}"
    by (rule fold_new) (use roc_sample_new[of ds p] x ps in force)
  then show "set (detectRateOfChange_param ds x acc)
          \<subseteq> set acc \<union> {a. type a = Rapid_Change \<and> parameter a \<in> fst ` set st \<and> index a < length ds
                               \<and> missionTime a = mission_time_s (ds ! index a)}"
    by (simp add: detectRateOfChange_param_def ps Let_def)
qed

lemma detectSustained_new:
  "set (detectSustainedDeviations ds st acc)
     \<subseteq> set acc \<union> {a. type a = Sustained_Deviation \<and> parameter a \<in> fst ` set st \<and> index a < length ds
                               \<and> missionTime a = mission_time_s (ds ! index a)}"
  unfolding detectSustainedDeviations_def
proof (rule fold_new)
  fix x acc assume x: "x \<in> set st"
  obtain p s where ps: "x = (p, s)" by (cases x)
  have "set (fold (sustained_sample ds p s) [WIN..<length ds] acc)
          \<subseteq> set acc \<union> {a. type a = Sustained_Deviation \<and> parameter a \<in> fst ` set st \<and> index a < length ds
                               \<and> missionTime a = mission_time_s (ds ! index a)}"
    by (rule fold_new) (use sustained_sample_new[of ds p s] x ps in force)
  then show "set (detectSustained_param ds x acc)
          \<subseteq> set acc \<union> {a. type a = Sustained_Deviation \<and> parameter a \<in> fst ` set st \<and> index a < length ds
                               \<and> missionTime a = mission_time_s (ds ! index a)}"
    by (simp add: detectSustained_param_def ps)
qed

lemma detectRedline_new:
  "set (detectRedlineViolations ds acc)
     \<subseteq> set acc \<union> {a. type a = Redline_Violation \<and> parameter a \<in> fst ` set REDLINE_LIMITS \<and> index a < length ds
                               \<and> missionTime a = mission_time_s (ds ! index a)}"
  unfolding detectRedlineViolations_def
proof (rule fold_new)
  fix x acc assume x: "x \<in> set REDLINE_LIMITS"
  obtain p lm where ps: "x = (p, lm)" by (cases x)
  have "set (fold (redline_sample ds p lm) [0..<length ds] acc)
          \<subseteq> set acc \<union> {a. type a = Redline_Violation \<and> parameter a \<in> fst ` set REDLINE_LIMITS \<and> index a < length ds
                               \<and> missionTime a = mission_time_s (ds ! index a)}"
    by (rule fold_new) (use redline_sample_new[of ds p lm] x ps in force)
  then show "set (detectRedline_param ds x acc)
          \<subseteq> set acc \<union> {a. type a = Redline_Violation \<and> parameter a \<in> fst ` set REDLINE_LIMITS \<and> index a < length ds
                               \<and> missionTime a = mission_time_s (ds ! index a)}"
    by (simp add: detectRedline_param_def ps)
qed

lemma keys_update: "fst ` set (AList.update k v al) = insert k (fst ` set al)"
  by (induction al) auto

lemma keys_computeStats_param:
  "fst ` set (computeStats_param ds p st) \<subseteq> insert p (fst ` set st)"
  by (auto simp: computeStats_param_def Let_def keys_update)

lemma keys_computeStats:
  "fst ` set (computeStats ds st) \<subseteq> fst ` set st \<union> fst ` set REDLINE_LIMITS"
proof -
  have "\<And>ps. fst ` set (fold (computeStats_param ds) ps st) \<subseteq> fst ` set st \<union> set ps"
  proof -
    fix ps show "fst ` set (fold (computeStats_param ds) ps st) \<subseteq> fst ` set st \<union> set ps"
    proof (induction ps arbitrary: st)
      case Nil
      then show ?case by simp
    next
      case (Cons p ps)
      show ?case using Cons.IH[of "computeStats_param ds p st"] keys_computeStats_param[of ds p st]
        by auto
    qed
  qed
  then show ?thesis unfolding computeStats_def by force
qed


lemma detections_cases:
  assumes "a \<in> set (detections w st)"
  shows "((type a = Z_Score_Outlier \<and> parameter a \<in> fst ` set st)
       \<or> (type a = Rapid_Change \<and> parameter a \<in> fst ` set st)
       \<or> (type a = Redline_Violation \<and> parameter a \<in> fst ` set REDLINE_LIMITS
            \<and> a \<in> set (detectRedlineViolations w
                          (detectRateOfChange w st (detectZScoreAnomalies w st []))))
       \<or> (type a = Sustained_Deviation \<and> parameter a \<in> fst ` set st))
       \<and> index a < length w \<and> missionTime a = mission_time_s (w ! index a)"
proof -
  let ?z = "detectZScoreAnomalies w st []"
  let ?r = "detectRateOfChange w st ?z"
  let ?l = "detectRedlineViolations w ?r"
  let ?ok = "index a < length w \<and> missionTime a = mission_time_s (w ! index a)"
  from assms detectSustained_new[of w st ?l]
  have "a \<in> set ?l \<or> type a = Sustained_Deviation \<and> parameter a \<in> fst ` set st \<and> ?ok"
    unfolding detections_def by blast
  moreover from detectRedline_new[of w ?r]
  have "a \<in> set ?l \<Longrightarrow>
          a \<in> set ?r \<or> type a = Redline_Violation \<and> parameter a \<in> fst ` set REDLINE_LIMITS \<and> ?ok"
    by blast
  moreover from detectRateOfChange_new[of w st ?z]
  have "a \<in> set ?r \<Longrightarrow>
          a \<in> set ?z \<or> type a = Rapid_Change \<and> parameter a \<in> fst ` set st \<and> ?ok"
    by blast
  moreover from detectZScore_new[of w st "[]"]
  have "a \<in> set ?z \<Longrightarrow> type a = Z_Score_Outlier \<and> parameter a \<in> fst ` set st \<and> ?ok"
    by auto
  moreover have "a \<in> set ?r \<Longrightarrow> type a \<noteq> Redline_Violation"
    using calculation(3,4) by auto
  ultimately show ?thesis by blast
qed

lemma detectAll_run_empty:
  "working_set (data s) = [] \<Longrightarrow> detectAll_run s = s\<lparr>anomalies := []\<rparr>"
  by (simp add: detectAll_run_def)

lemma detectAll_run_nonempty:
  "working_set (data s) \<noteq> [] \<Longrightarrow>
   detectAll_run s =
     clusterAnomalies
       (s\<lparr>stats := computeStats (working_set (data s)) (stats s),
          anomalies := detections (working_set (data s))
                          (computeStats (working_set (data s)) (stats s))\<rparr>)"
  by (simp add: detectAll_run_def detections_def Let_def)

lemma anomalies_detectAll_run:
  "anomalies (detectAll_run s) =
     (if working_set (data s) = [] then []
      else sort_anomalies (detections (working_set (data s))
                            (computeStats (working_set (data s)) (stats s))))"
  by (simp add: detectAll_run_empty detectAll_run_nonempty anomalies_clusterAnomalies)

lemma stats_clusterAnomalies: "stats (clusterAnomalies s) = stats s"
  by (simp add: clusterAnomalies_def Let_def split: prod.splits)

lemma data_clusterAnomalies: "data (clusterAnomalies s) = data s"
  by (simp add: clusterAnomalies_def Let_def split: prod.splits)

lemma stats_detectAll_run:
  "stats (detectAll_run s) =
     (if working_set (data s) = [] then stats s
      else computeStats (working_set (data s)) (stats s))"
  by (simp add: detectAll_run_empty detectAll_run_nonempty stats_clusterAnomalies)

lemma data_detectAll_run: "data (detectAll_run s) = data s"
  by (cases "working_set (data s) = []")
     (simp_all add: detectAll_run_empty detectAll_run_nonempty data_clusterAnomalies)

section \<open>Redline violations\<close>

lemma fold_inv:
  "(\<And>x acc. x \<in> set xs \<Longrightarrow> I acc \<Longrightarrow> I (f x acc)) \<Longrightarrow> I acc \<Longrightarrow> I (fold f xs acc)"
  by (induction xs arbitrary: acc) simp_all

lemma table_limits_finite:
  assumes "(p, lm) \<in> set REDLINE_LIMITS"
  shows "\<exists>lo hi. lim_min lm = Fin lo \<and> lim_max lm = Fin hi"
proof -
  have "list_all (\<lambda>(p, lm). lim_min lm \<notin> {PInf, NInf, NaN} \<and> lim_max lm \<notin> {PInf, NInf, NaN})
          REDLINE_LIMITS"
    by (simp add: REDLINE_LIMITS_def)
  then have "lim_min lm \<notin> {PInf, NInf, NaN} \<and> lim_max lm \<notin> {PInf, NInf, NaN}"
    using assms by (auto simp: list_all_iff)
  then show ?thesis by (cases "lim_min lm"; cases "lim_max lm") auto
qed

lemma or_one_Fin: "js_abs (or_one (Fin L)) = Fin (if L = 0 then 1 else \<bar>L\<bar>)"
  by (simp add: or_one_def)

lemma violation_limit:
  "violation lm v = Some (d, e, L) \<Longrightarrow> L = (case d of HIGH \<Rightarrow> lim_max lm | LOW \<Rightarrow> lim_min lm)"
  by (auto simp: violation_def split: if_splits)

lemma redline_sample_cases:
  "redline_sample ds param lm i acc = acc \<or>
   (\<exists>v d e L. (ds ! i) param = Some v \<and> violation lm v = Some (d, e, L) \<and>
      redline_sample ds param lm i acc = acc @
        [\<lparr>type = Redline_Violation,
          severity = (if js_gt (js_mul (js_div e (js_abs (or_one L))) (Fin 100)) (Fin 10) then CRITICAL
                      else if js_gt (js_mul (js_div e (js_abs (or_one L))) (Fin 100)) (Fin 5) then WARNING
                      else CAUTION),
          parameter = param, paramLabel = label lm, a_value = toFixed2 v,
          detail = RedlineFields L e d (toFixed2 (js_mul (js_div e (js_abs (or_one L))) (Fin 100))),
          unit = lim_unit lm, missionTime = mission_time_s (ds ! i), index = i\<rparr>])"
  by (auto simp: redline_sample_def Let_def split: option.splits)

lemma redline_sample_percent:
  assumes tbl: "(param, lm) \<in> set REDLINE_LIMITS"
      and acc: "list_all (\<lambda>a. type a = Redline_Violation \<longrightarrow> percent_ok a) acc"
  shows "list_all (\<lambda>a. type a = Redline_Violation \<longrightarrow> percent_ok a) (redline_sample ds param lm i acc)"
proof -
  obtain lo hi where lh: "lim_min lm = Fin lo" "lim_max lm = Fin hi"
    using table_limits_finite[OF tbl] by blast
  consider "redline_sample ds param lm i acc = acc"
    | v d e L where "violation lm v = Some (d, e, L)"
        "redline_sample ds param lm i acc = acc @
        [\<lparr>type = Redline_Violation,
          severity = (if js_gt (js_mul (js_div e (js_abs (or_one L))) (Fin 100)) (Fin 10) then CRITICAL
                      else if js_gt (js_mul (js_div e (js_abs (or_one L))) (Fin 100)) (Fin 5) then WARNING
                      else CAUTION),
          parameter = param, paramLabel = label lm, a_value = toFixed2 v,
          detail = RedlineFields L e d (toFixed2 (js_mul (js_div e (js_abs (or_one L))) (Fin 100))),
          unit = lim_unit lm, missionTime = mission_time_s (ds ! i), index = i\<rparr>]"
    using redline_sample_cases[of ds param lm i acc] by blast
  then show ?thesis
  proof cases
    case 1
    then show ?thesis using acc by simp
  next
    case 2
    from violation_limit[OF 2(1)] obtain r where L: "L = Fin r"
      and Lc: "Fin r = (case d of HIGH \<Rightarrow> lim_max lm | LOW \<Rightarrow> lim_min lm)"
      using lh by (cases d) auto
    have "percent_ok \<lparr>type = Redline_Violation,
          severity = (if js_gt (js_mul (js_div e (js_abs (or_one L))) (Fin 100)) (Fin 10) then CRITICAL
                      else if js_gt (js_mul (js_div e (js_abs (or_one L))) (Fin 100)) (Fin 5) then WARNING
                      else CAUTION),
          parameter = param, paramLabel = label lm, a_value = toFixed2 v,
          detail = RedlineFields L e d (toFixed2 (js_mul (js_div e (js_abs (or_one L))) (Fin 100))),
          unit = lim_unit lm, missionTime = mission_time_s (ds ! i), index = i\<rparr>"
      unfolding percent_ok_def
      apply (rule exI[of _ lm], rule exI[of _ r], rule exI[of _ e])
      using tbl Lc[symmetric] by (simp add: L or_one_Fin mult.commute del: toFixed2.simps)
    then show ?thesis using acc 2(2) by simp
  qed
qed

lemma detectRedline_percent:
  "list_all (\<lambda>a. type a = Redline_Violation \<longrightarrow> percent_ok a) acc \<Longrightarrow>
   list_all (\<lambda>a. type a = Redline_Violation \<longrightarrow> percent_ok a) (detectRedlineViolations ds acc)"
  unfolding detectRedlineViolations_def
  apply (erule fold_inv[rotated])
  apply (clarsimp simp: detectRedline_param_def)
  apply (erule fold_inv[rotated])
  apply (erule (1) redline_sample_percent)
  done



lemma detections_percent:
  assumes "a \<in> set (detections w st)" and "type a = Redline_Violation"
  shows "percent_ok a"
proof -
  let ?r = "detectRateOfChange w st (detectZScoreAnomalies w st [])"
  have "list_all (\<lambda>a. type a = Redline_Violation \<longrightarrow> percent_ok a) ?r"
    using detectZScore_new[of w st "[]"]
          detectRateOfChange_new[of w st "detectZScoreAnomalies w st []"]
    unfolding list_all_iff by fastforce
  then have "list_all (\<lambda>a. type a = Redline_Violation \<longrightarrow> percent_ok a)
               (detectRedlineViolations w ?r)"
    by (rule detectRedline_percent)
  moreover have "a \<in> set (detectRedlineViolations w ?r)"
    using detections_cases[OF assms(1)] assms(2) by auto
  ultimately show ?thesis using assms(2) by (simp add: list_all_iff)
qed

lemma fl_1_20: "fl (1 / 20) = Fin (3602879701896397 / 2 ^ 56)"
  by (subst fl_eval[where e = "-5" and u = "1 / 2 ^ 57"]) (simp_all add: rne_def pow2_def)

lemma fl_1_20_100: "fl (3602879701896397 / 2 ^ 56 * 100) = Fin 5"
  by (subst fl_eval[where e = "2" and u = "1 / 2 ^ 50"]) (simp_all add: rne_def pow2_def)

lemma fl_1_8200: "fl (1 / 8200) = Fin (1124801467909119 / 2 ^ 63)"
  by (subst fl_eval[where e = "-14" and u = "1 / 2 ^ 66"]) (simp_all add: rne_def pow2_def)

lemma fl_1_8200_100: "fl (1124801467909119 / 2 ^ 63 * 100) = Fin (3515004587215997 / 2 ^ 58)"
  by (subst fl_eval[where e = "-7" and u = "1 / 2 ^ 59"]) (simp_all add: rne_def pow2_def)

lemma fl_1_100: "fl (1 / 100) = Fin (5764607523034235 / 2 ^ 59)"
  by (subst fl_eval[where e = "-7" and u = "1 / 2 ^ 59"]) (simp_all add: rne_def pow2_def)

lemma fl_1_82: "fl (1 / 82) = Fin (3515004587215997 / 2 ^ 58)"
  by (subst fl_eval[where e = "-7" and u = "1 / 2 ^ 59"]) (simp_all add: rne_def pow2_def)

text \<open>The percentages of the examples: \<open>75 / 1500 * 100\<close> is 5 and \<open>1 / 8200 * 100\<close> is
  the binary64 number nearest to \<open>1 / 82\<close>, which \<open>toFixed(2)\<close> renders as \<open>0.01\<close>.\<close>

lemma pct_1575: "js_mul (fl (1 / 20)) (Fin 100) = Fin 5"
  by (simp only: fl_1_20 js_mul.simps fl_1_20_100)

lemma pct_8201: "js_mul (fl (1 / 8200)) (Fin 100) = Fin (3515004587215997 / 2 ^ 58)"
  by (simp only: fl_1_8200 js_mul.simps fl_1_8200_100)

lemma toFixed2_pct_8201: "toFixed2 (Fin (3515004587215997 / 2 ^ 58)) = fl (1 / 100)"
  by simp

lemma working_set_single:
  "0 \<le> t \<Longrightarrow> p \<noteq> ''mission_time_s'' \<Longrightarrow>
   working_set [single_record t p v] = [single_record t p v]"
  by (simp add: working_set_def single_record_def js_ge_def)

lemma detectAll_downrange_1575:
  assumes "0 \<le> t"
  shows "anomalies (detectAll_run (constructor [single_record t ''downrange_distance_km'' (Fin 1575)]))
    = [\<lparr>type = Redline_Violation, severity = CAUTION, parameter = ''downrange_distance_km'',
        paramLabel = ''Downrange Distance'', a_value = Fin 1575,
        detail = RedlineFields (Fin 1500) (Fin 75) HIGH (Fin 5),
        unit = ''km'', missionTime = Fin t, index = 0\<rparr>]"
proof -
  let ?r = "single_record t ''downrange_distance_km'' (Fin 1575)"
  have st: "computeStats [?r] [] =
      [(''downrange_distance_km'',
        \<lparr>mean = Fin 1575, std = Fin 0, b_min = Fin 1575, b_max = Fin 1575\<rparr>)]"
    by (simp add: computeStats_def REDLINE_LIMITS_def computeStats_param_def param_values_def
          single_record_def Let_def isNaN_def js_pow2_def js_sub_def Math_min_def Math_max_def
          js_min_def js_max_def)
  have rl: "detectRedlineViolations [?r] [] =
      [\<lparr>type = Redline_Violation, severity = CAUTION, parameter = ''downrange_distance_km'',
        paramLabel = ''Downrange Distance'', a_value = Fin 1575,
        detail = RedlineFields (Fin 1500) (Fin 75) HIGH (Fin 5),
        unit = ''km'', missionTime = Fin t, index = 0\<rparr>]"
    by (simp add: detectRedlineViolations_def REDLINE_LIMITS_def detectRedline_param_def
          redline_sample_def single_record_def violation_def js_sub_def js_lt_def or_one_def
          mission_time_s_def pct_1575 pct_8201)
  have "detections [?r] (computeStats [?r] []) = detectRedlineViolations [?r] []"
    by (simp add: st detections_def detectZScoreAnomalies_def detectZScore_param_def
          detectRateOfChange_def detectRateOfChange_param_def roc_values_def
          detectSustainedDeviations_def detectSustained_param_def)
  then show ?thesis
    using assms
    by (simp add: anomalies_detectAll_run constructor_def working_set_single rl
          sort_anomalies_def)
qed

lemma redline_sample_1575:
  assumes "lim_max lm = Fin 1500" and "(ds ! i) param = Some (Fin 1575)"
  shows "redline_sample ds param lm i acc =
     acc @ [\<lparr>type = Redline_Violation, severity = CAUTION, parameter = param,
             paramLabel = label lm, a_value = Fin 1575,
             detail = RedlineFields (Fin 1500) (Fin 75) HIGH (Fin 5),
             unit = lim_unit lm, missionTime = mission_time_s (ds ! i), index = i\<rparr>]"
  using assms by (simp add: redline_sample_def violation_def js_sub_def or_one_def pct_1575)

text \<open>
  Claim C2. The redline detector adds nothing for a sample that is absent or violates no
  limit, and for a violation it adds exactly one anomaly whose severity follows the tiers
  with strict comparisons: CRITICAL when the percentage is greater than 10, otherwise
  WARNING when it is greater than 5, otherwise CAUTION. A sample of value 1575 of a
  parameter whose redline maximum is 1500 gives one anomaly with exceedance 75 and
  percent-over 5; as 5 is not greater than 5 its severity is CAUTION. The table has such a
  parameter, the downrange distance, and a run on one record with that value at a valid
  mission time yields this one anomaly and no other.
\<close>

theorem C2_redline_boundary:
  "((((ds ! i) param = None \<or> (\<exists>v. (ds ! i) param = Some v \<and> violation lm v = None))
      \<and> redline_sample ds param lm i acc = acc)
    \<or> (\<exists>v d e L. (ds ! i) param = Some v \<and> violation lm v = Some (d, e, L) \<and>
          redline_sample ds param lm i acc = acc @
            [\<lparr>type = Redline_Violation,
              severity =
                (if js_gt (js_mul (js_div e (js_abs (or_one L))) (Fin 100)) (Fin 10) then CRITICAL
                 else if js_gt (js_mul (js_div e (js_abs (or_one L))) (Fin 100)) (Fin 5) then WARNING
                 else CAUTION),
              parameter = param, paramLabel = label lm, a_value = toFixed2 v,
              detail = RedlineFields L e d
                         (toFixed2 (js_mul (js_div e (js_abs (or_one L))) (Fin 100))),
              unit = lim_unit lm, missionTime = mission_time_s (ds ! i), index = i\<rparr>]))
   \<and> (lim_max lm = Fin 1500 \<and> (ds ! i) param = Some (Fin 1575) \<longrightarrow>
      redline_sample ds param lm i acc =
        acc @ [\<lparr>type = Redline_Violation, severity = CAUTION, parameter = param,
                paramLabel = label lm, a_value = Fin 1575,
                detail = RedlineFields (Fin 1500) (Fin 75) HIGH (Fin 5),
                unit = lim_unit lm, missionTime = mission_time_s (ds ! i), index = i\<rparr>])
   \<and> (0 \<le> t \<longrightarrow>
      fst (detectAll (constructor [single_record t ''downrange_distance_km'' (Fin 1575)]))
        = [\<lparr>type = Redline_Violation, severity = CAUTION, parameter = ''downrange_distance_km'',
            paramLabel = ''Downrange Distance'', a_value = Fin 1575,
            detail = RedlineFields (Fin 1500) (Fin 75) HIGH (Fin 5),
            unit = ''km'', missionTime = Fin t, index = 0\<rparr>])"
proof -
  have "(((ds ! i) param = None \<or> (\<exists>v. (ds ! i) param = Some v \<and> violation lm v = None))
      \<and> redline_sample ds param lm i acc = acc)
    \<or> (\<exists>v d e L. (ds ! i) param = Some v \<and> violation lm v = Some (d, e, L) \<and>
          redline_sample ds param lm i acc = acc @
            [\<lparr>type = Redline_Violation,
              severity =
                (if js_gt (js_mul (js_div e (js_abs (or_one L))) (Fin 100)) (Fin 10) then CRITICAL
                 else if js_gt (js_mul (js_div e (js_abs (or_one L))) (Fin 100)) (Fin 5) then WARNING
                 else CAUTION),
              parameter = param, paramLabel = label lm, a_value = toFixed2 v,
              detail = RedlineFields L e d
                         (toFixed2 (js_mul (js_div e (js_abs (or_one L))) (Fin 100))),
              unit = lim_unit lm, missionTime = mission_time_s (ds ! i), index = i\<rparr>])"
    by (auto simp: redline_sample_def Let_def split: option.splits)
  then show ?thesis
    using redline_sample_1575[of lm ds i param acc] detectAll_downrange_1575[of t]
    by (simp only: detectAll_def fst_conv) blast
qed

theorem C2_redline_boundary_witness:
  "lim_max \<lparr>lim_min = Fin (-1), lim_max = Fin 1500, lim_unit = ''km'', label = ''Downrange Distance''\<rparr>
     = Fin 1500
   \<and> ([single_record 7 ''downrange_distance_km'' (Fin 1575)] ! 0) ''downrange_distance_km''
     = Some (Fin 1575)
   \<and> (0::real) \<le> 7
   \<and> map severity (redline_sample [single_record 7 ''downrange_distance_km'' (Fin 1575)]
        ''downrange_distance_km''
        \<lparr>lim_min = Fin (-1), lim_max = Fin 1500, lim_unit = ''km'', label = ''Downrange Distance''\<rparr>
        0 []) = [CAUTION]
   \<and> map (\<lambda>a. (severity a, exceedance (detail a), percentOver (detail a)))
        (fst (detectAll (constructor [single_record 7 ''downrange_distance_km'' (Fin 1575)])))
     = [(CAUTION, Fin 75, Fin 5)]"
  using C2_redline_boundary[where
      lm = "\<lparr>lim_min = Fin (-1), lim_max = Fin 1500, lim_unit = ''km'', label = ''Downrange Distance''\<rparr>"
      and ds = "[single_record 7 ''downrange_distance_km'' (Fin 1575)]" and i = 0
      and param = "''downrange_distance_km''" and acc = "[]" and t = 7]
  by (simp add: single_record_def)

lemma detectAll_acceleration_low:
  "anomalies (detectAll_run (constructor [single_record 0 ''acceleration_ms2'' (Fin (- 3))]))
    = [\<lparr>type = Redline_Violation, severity = CRITICAL, parameter = ''acceleration_ms2'',
        paramLabel = ''Acceleration'', a_value = Fin (- 3),
        detail = RedlineFields (Fin 0) (Fin 3) LOW (Fin 300),
        unit = ''m/s2'', missionTime = Fin 0, index = 0\<rparr>]"
proof -
  let ?r = "single_record 0 ''acceleration_ms2'' (Fin (- 3))"
  have st: "computeStats [?r] [] =
      [(''acceleration_ms2'',
        \<lparr>mean = Fin (- 3), std = Fin 0, b_min = Fin (- 3), b_max = Fin (- 3)\<rparr>)]"
    by (simp add: computeStats_def REDLINE_LIMITS_def computeStats_param_def param_values_def
          single_record_def Let_def isNaN_def js_pow2_def js_sub_def Math_min_def Math_max_def
          js_min_def js_max_def)
  have rl: "detectRedlineViolations [?r] [] =
      [\<lparr>type = Redline_Violation, severity = CRITICAL, parameter = ''acceleration_ms2'',
        paramLabel = ''Acceleration'', a_value = Fin (- 3),
        detail = RedlineFields (Fin 0) (Fin 3) LOW (Fin 300),
        unit = ''m/s2'', missionTime = Fin 0, index = 0\<rparr>]"
    by (simp add: detectRedlineViolations_def REDLINE_LIMITS_def detectRedline_param_def
          redline_sample_def single_record_def violation_def js_sub_def js_lt_def or_one_def
          mission_time_s_def pct_1575 pct_8201)
  have "detections [?r] (computeStats [?r] []) = detectRedlineViolations [?r] []"
    by (simp add: st detections_def detectZScoreAnomalies_def detectZScore_param_def
          detectRateOfChange_def detectRateOfChange_param_def roc_values_def
          detectSustainedDeviations_def detectSustained_param_def)
  then show ?thesis
    by (simp add: anomalies_detectAll_run constructor_def working_set_single rl
          sort_anomalies_def)
qed

lemma detectAll_velocity_high:
  "anomalies (detectAll_run (constructor [single_record 0 ''velocity_ms'' (Fin 8201)]))
    = [\<lparr>type = Redline_Violation, severity = CAUTION, parameter = ''velocity_ms'',
        paramLabel = ''Velocity'', a_value = Fin 8201,
        detail = RedlineFields (Fin 8200) (Fin 1) HIGH (fl (1 / 100)),
        unit = ''m/s'', missionTime = Fin 0, index = 0\<rparr>]"
proof -
  let ?r = "single_record 0 ''velocity_ms'' (Fin 8201)"
  have st: "computeStats [?r] [] =
      [(''velocity_ms'',
        \<lparr>mean = Fin 8201, std = Fin 0, b_min = Fin 8201, b_max = Fin 8201\<rparr>)]"
    by (simp add: computeStats_def REDLINE_LIMITS_def computeStats_param_def param_values_def
          single_record_def Let_def isNaN_def js_pow2_def js_sub_def Math_min_def Math_max_def
          js_min_def js_max_def)
  have rl: "detectRedlineViolations [?r] [] =
      [\<lparr>type = Redline_Violation, severity = CAUTION, parameter = ''velocity_ms'',
        paramLabel = ''Velocity'', a_value = Fin 8201,
        detail = RedlineFields (Fin 8200) (Fin 1) HIGH (fl (1 / 100)),
        unit = ''m/s'', missionTime = Fin 0, index = 0\<rparr>]"
    by (simp add: detectRedlineViolations_def REDLINE_LIMITS_def detectRedline_param_def
          redline_sample_def single_record_def violation_def js_sub_def js_lt_def or_one_def
          mission_time_s_def pct_1575 pct_8201)
  have "detections [?r] (computeStats [?r] []) = detectRedlineViolations [?r] []"
    by (simp add: st detections_def detectZScoreAnomalies_def detectZScore_param_def
          detectRateOfChange_def detectRateOfChange_param_def roc_values_def
          detectSustainedDeviations_def detectSustained_param_def)
  then show ?thesis
    by (simp add: anomalies_detectAll_run constructor_def working_set_single rl
          sort_anomalies_def)
qed

text \<open>
  Claim C3, as stated, fails. A record with acceleration \<open>-3\<close> violates the minimum \<open>0\<close>
  with exceedance 3: the code stores the percent-over 300, where 100 times the exceedance
  over the magnitude of the limit is a division by zero. A record with velocity 8201
  violates the maximum 8200 with exceedance 1: the code stores the binary64 number nearest
  to 0.01, the two-decimal rendering of its percentage, and not the quotient \<open>100 / 8200\<close>.
\<close>

theorem C3_percent_over_counterexample:
  "fst (detectAll (constructor [single_record 0 ''acceleration_ms2'' (Fin (- 3))]))
     = [\<lparr>type = Redline_Violation, severity = CRITICAL, parameter = ''acceleration_ms2'',
         paramLabel = ''Acceleration'', a_value = Fin (- 3),
         detail = RedlineFields (Fin 0) (Fin 3) LOW (Fin 300),
         unit = ''m/s2'', missionTime = Fin 0, index = 0\<rparr>]
   \<and> js_div (js_mul (Fin 100) (Fin 3)) (js_abs (Fin 0)) = PInf
   \<and> Fin 300 \<noteq> PInf
   \<and> fst (detectAll (constructor [single_record 0 ''velocity_ms'' (Fin 8201)]))
     = [\<lparr>type = Redline_Violation, severity = CAUTION, parameter = ''velocity_ms'',
         paramLabel = ''Velocity'', a_value = Fin 8201,
         detail = RedlineFields (Fin 8200) (Fin 1) HIGH (fl (1 / 100)),
         unit = ''m/s'', missionTime = Fin 0, index = 0\<rparr>]
   \<and> js_div (js_mul (Fin 100) (Fin 1)) (js_abs (Fin 8200)) = fl (1 / 82)
   \<and> fl (1 / 100) \<noteq> fl (1 / 82)"
proof -
  have "fl (1 / 100) \<noteq> fl (1 / 82)" unfolding fl_1_100 fl_1_82 by simp
  then show ?thesis
    by (simp add: detectAll_def detectAll_acceleration_low detectAll_velocity_high)
qed

text \<open>
  Claim C3, amended. Every redline violation in the result of a run stores, as its
  percent-over, the two-decimal rounding of its stored exceedance divided by the magnitude
  of the violated bound of its parameter (the maximum for \<open>HIGH\<close>, the minimum for \<open>LOW\<close>)
  and multiplied by 100, in binary64 arithmetic, where a bound of zero is replaced by one.
\<close>

theorem C3_percent_over_amended:
  "\<forall>a \<in> set (fst (detectAll s)). type a = Redline_Violation \<longrightarrow> percent_ok a"
  using detections_percent set_sort_anomalies
  by (auto simp: detectAll_def anomalies_detectAll_run split: if_splits)

theorem C3_percent_over_amended_witness:
  "percent_ok \<lparr>type = Redline_Violation, severity = CRITICAL, parameter = ''acceleration_ms2'',
        paramLabel = ''Acceleration'', a_value = Fin (- 3),
        detail = RedlineFields (Fin 0) (Fin 3) LOW (Fin 300),
        unit = ''m/s2'', missionTime = Fin 0, index = 0\<rparr>"
  using C3_percent_over_amended[of "constructor [single_record 0 ''acceleration_ms2'' (Fin (- 3))]"]
  by (simp add: detectAll_def detectAll_acceleration_low)

section \<open>Repeated runs\<close>

lemma computeStats_param_alt:
  "computeStats_param ds p st =
     (if param_values ds p = [] then st
      else AList.update p (param_baseline (param_values ds p)) st)"
  by (simp add: computeStats_param_def param_baseline_def Let_def)

lemma map_of_fold_computeStats:
  "map_of (fold (computeStats_param ds) ps st) q =
     (if q \<in> set ps \<and> param_values ds q \<noteq> [] then Some (param_baseline (param_values ds q))
      else map_of st q)"
  by (induction ps arbitrary: st) (auto simp: computeStats_param_alt update_conv')

lemma fold_computeStats_fixed:
  assumes "\<And>q. q \<in> set ps \<Longrightarrow> param_values ds q \<noteq> [] \<Longrightarrow>
             map_of st q = Some (param_baseline (param_values ds q))"
  shows "fold (computeStats_param ds) ps st = st"
  using assms
proof (induction ps)
  case Nil
  then show ?case by simp
next
  case (Cons p ps)
  have "computeStats_param ds p st = st"
    using Cons.prems[of p] by (auto simp: computeStats_param_alt intro!: update_triv)
  then show ?case using Cons by simp
qed

lemma computeStats_idem: "computeStats ds (computeStats ds st) = computeStats ds st"
  unfolding computeStats_def
  by (rule fold_computeStats_fixed) (simp add: map_of_fold_computeStats)


lemma clusterAnomalies_cong:
  "anomalies s = anomalies s' \<Longrightarrow> data s = data s' \<Longrightarrow> stats s = stats s' \<Longrightarrow>
   clusterAnomalies s = clusterAnomalies s'"
  by (cases s; cases s') (simp add: clusterAnomalies_def Let_def split: prod.splits)

lemma detectAll_run_idem: "detectAll_run (detectAll_run s) = detectAll_run s"
proof (cases "working_set (data s) = []")
  case True
  then show ?thesis by (simp add: detectAll_run_empty)
next
  case False
  let ?w = "working_set (data s)"
  let ?st = "computeStats ?w (stats s)"
  have d: "data (detectAll_run s) = data s" by (rule data_detectAll_run)
  have st: "stats (detectAll_run s) = ?st" using False by (simp add: stats_detectAll_run)
  have "detectAll_run (detectAll_run s)
      = clusterAnomalies (detectAll_run s\<lparr>stats := ?st, anomalies := detections ?w ?st\<rparr>)"
    using False by (simp add: detectAll_run_nonempty[of "detectAll_run s"] d st computeStats_idem)
  also have "\<dots> = clusterAnomalies (s\<lparr>stats := ?st, anomalies := detections ?w ?st\<rparr>)"
    by (rule clusterAnomalies_cong) (simp_all add: d)
  also have "\<dots> = detectAll_run s"
    using False by (simp add: detectAll_run_nonempty)
  finally show ?thesis .
qed

lemma detectAll_runs: "(detectAll_run ^^ Suc n) s = detectAll_run s"
  by (induction n) (simp_all add: detectAll_run_idem)

lemma working_set_empty_iff:
  "working_set ds = [] \<longleftrightarrow>
     (\<forall>d \<in> set ds. case d ''mission_time_s'' of None \<Rightarrow> True | Some t \<Rightarrow> \<not> js_ge t (Fin 0))"
  by (auto simp: working_set_def filter_empty_conv split: option.splits)

lemma detectAll_run_constructor_empty:
  "working_set ds = [] \<Longrightarrow> detectAll_run (constructor ds) = constructor ds"
  by (simp add: detectAll_run_empty constructor_def)


lemma keys_detectAll_run:
  "fst ` set (stats s) \<subseteq> fst ` set REDLINE_LIMITS \<Longrightarrow>
   fst ` set (stats (detectAll_run s)) \<subseteq> fst ` set REDLINE_LIMITS"
  using keys_computeStats[of "working_set (data s)" "stats s"]
  by (cases "working_set (data s) = []") (simp_all add: stats_detectAll_run, blast)

lemma keys_runs:
  "fst ` set (stats ((detectAll_run ^^ n) (constructor ds))) \<subseteq> fst ` set REDLINE_LIMITS"
  by (induction n) (simp_all add: constructor_def keys_detectAll_run)

lemma parameter_detectAll_run:
  assumes "fst ` set (stats s) \<subseteq> fst ` set REDLINE_LIMITS"
      and "a \<in> set (anomalies (detectAll_run s))"
  shows "parameter a \<in> fst ` set REDLINE_LIMITS"
proof -
  let ?w = "working_set (data s)"
  let ?st = "computeStats ?w (stats s)"
  have k: "fst ` set ?st \<subseteq> fst ` set REDLINE_LIMITS"
    using keys_computeStats[of ?w "stats s"] assms(1) by blast
  from assms(2) have "a \<in> set (detections ?w ?st)"
    by (auto simp: anomalies_detectAll_run set_sort_anomalies split: if_splits)
  from detections_cases[OF this] k show ?thesis by blast
qed


text \<open>
  Claim C6. A second \<open>detectAll\<close> on the detector left by a first one returns the same
  anomaly list and leaves the same detector (same anomalies, same events, same baselines),
  hence the same summary: the run starts from the empty anomaly list, recomputes the same
  baselines over the same data and rebuilds the events.
\<close>

theorem C6_detectAll_idempotent:
  "detectAll (snd (detectAll s)) = detectAll s
   \<and> fst (detectAll (snd (detectAll s))) = fst (detectAll s)
   \<and> events (snd (detectAll (snd (detectAll s)))) = events (snd (detectAll s))
   \<and> getSummary (snd (detectAll (snd (detectAll s)))) = getSummary (snd (detectAll s))"
  by (simp add: detectAll_def detectAll_run_idem)

text \<open>
  Claim C7. When no record has a mission time that is a number and at least zero, a
  detector built on the records returns the empty anomaly list from every run, through the
  early return of \<open>detectAll\<close>; its summary then has zero anomalies, zero events and the
  empty event list.
\<close>

theorem C7_empty_working_set:
  assumes "\<forall>d \<in> set ds. case d ''mission_time_s'' of None \<Rightarrow> True | Some t \<Rightarrow> \<not> js_ge t (Fin 0)"
  shows "fst (detectAll ((detectAll_run ^^ n) (constructor ds))) = []
         \<and> totalAnomalies (getSummary (snd (detectAll ((detectAll_run ^^ n) (constructor ds))))) = 0
         \<and> totalEvents (getSummary (snd (detectAll ((detectAll_run ^^ n) (constructor ds))))) = 0
         \<and> sm_events (getSummary (snd (detectAll ((detectAll_run ^^ n) (constructor ds))))) = []"
proof -
  have w: "working_set ds = []" using assms by (simp add: working_set_empty_iff)
  have "(detectAll_run ^^ n) (constructor ds) = constructor ds"
    by (induction n) (simp_all add: detectAll_run_constructor_empty[OF w])
  then have "detectAll ((detectAll_run ^^ n) (constructor ds)) = ([], constructor ds)"
    by (simp add: detectAll_def detectAll_run_constructor_empty[OF w]) (simp add: constructor_def)
  then show ?thesis
    by (simp add: getSummary_def constructor_def)
qed

theorem C7_empty_working_set_witness:
  "fst (detectAll ((detectAll_run ^^ 2)
      (constructor [[''mission_time_s'' \<mapsto> Fin (- 1), ''velocity_ms'' \<mapsto> Fin 9000],
                    [''mission_time_s'' \<mapsto> NaN], [''velocity_ms'' \<mapsto> Fin 9000]]))) = []
   \<and> totalEvents (getSummary (snd (detectAll ((detectAll_run ^^ 2)
      (constructor [[''mission_time_s'' \<mapsto> Fin (- 1), ''velocity_ms'' \<mapsto> Fin 9000],
                    [''mission_time_s'' \<mapsto> NaN], [''velocity_ms'' \<mapsto> Fin 9000]]))))) = 0"
  using C7_empty_working_set[of
      "[[''mission_time_s'' \<mapsto> Fin (- 1), ''velocity_ms'' \<mapsto> Fin 9000],
        [''mission_time_s'' \<mapsto> NaN], [''velocity_ms'' \<mapsto> Fin 9000]]" 2]
  by (simp add: js_ge_def)

section \<open>The parameters of anomalies\<close>

lemma agree_time: "agree d d' \<Longrightarrow> mission_time_s d = mission_time_s d'"
  by (simp add: agree_def mission_time_s_def)

lemma agree_param: "agree d d' \<Longrightarrow> p \<in> fst ` set REDLINE_LIMITS \<Longrightarrow> d p = d' p"
  unfolding agree_def by blast

lemma working_set_agree:
  "list_all2 agree ds ds' \<Longrightarrow> list_all2 agree (working_set ds) (working_set ds')"
  by (induction rule: list_all2_induct) (auto simp: working_set_def agree_def)

lemma agree_nth:
  "list_all2 agree w w' \<Longrightarrow> i < length w \<Longrightarrow> agree (w ! i) (w' ! i)"
  by (simp add: list_all2_conv_all_nth)

lemma agree_length: "list_all2 agree w w' \<Longrightarrow> length w = length w'"
  by (rule list_all2_lengthD)

lemma param_values_agree:
  "list_all2 agree w w' \<Longrightarrow> p \<in> fst ` set REDLINE_LIMITS \<Longrightarrow> param_values w p = param_values w' p"
proof (induction rule: list_all2_induct)
  case Nil
  then show ?case by simp
next
  case (Cons x xs y ys)
  have "x p = y p" using Cons.hyps(1) Cons.prems by (rule agree_param)
  then show ?case using Cons by (auto simp: param_values_def List.map_filter_simps split: option.splits)
qed

lemma computeStats_agree:
  assumes "list_all2 agree w w'"
  shows "computeStats w st = computeStats w' st"
  unfolding computeStats_def
  by (rule fold_cong)
     (auto simp: computeStats_param_def param_values_agree[OF assms] fun_eq_iff)

lemma zscore_sample_agree:
  assumes "list_all2 agree w w'" "p \<in> fst ` set REDLINE_LIMITS" "i < length w"
  shows "zscore_sample w p s i = zscore_sample w' p s i"
  unfolding zscore_sample_def
    agree_time[OF agree_nth[OF assms(1,3)]] agree_param[OF agree_nth[OF assms(1,3)] assms(2)] ..

lemma detectZScore_agree:
  assumes "list_all2 agree w w'" "fst ` set st \<subseteq> fst ` set REDLINE_LIMITS"
  shows "detectZScoreAnomalies w st acc = detectZScoreAnomalies w' st acc"
  unfolding detectZScoreAnomalies_def
proof (rule fold_cong[OF refl refl])
  fix x assume "x \<in> set st"
  then have "fst x \<in> fst ` set st" by (rule imageI)
  then have "fst x \<in> fst ` set REDLINE_LIMITS" using assms(2) by (rule subsetD[rotated])
  then obtain p s where x: "x = (p, s)" and p: "p \<in> fst ` set REDLINE_LIMITS"
    by (cases x) simp
  have "\<And>acc. fold (zscore_sample w p s) [0..<length w] acc
              = fold (zscore_sample w' p s) [0..<length w'] acc"
    by (rule fold_cong) (simp_all add: agree_length[OF assms(1)] zscore_sample_agree[OF assms(1) p])
  then show "detectZScore_param w x = detectZScore_param w' x"
    by (simp add: detectZScore_param_def x fun_eq_iff)
qed

lemma map_filter_cong_set:
  "(\<And>x. x \<in> set xs \<Longrightarrow> f x = g x) \<Longrightarrow> List.map_filter f xs = List.map_filter g xs"
  by (induction xs) (auto simp: List.map_filter_simps split: option.splits)

lemma roc_values_agree:
  assumes "list_all2 agree w w'" "p \<in> fst ` set REDLINE_LIMITS"
  shows "roc_values w p = roc_values w' p"
proof -
  have "\<And>i. i < length w \<Longrightarrow> (w ! i) p = (w' ! i) p"
    using agree_param[OF agree_nth[OF assms(1)] assms(2)] by simp
  then have "\<And>i. i \<in> set [1..<length w] \<Longrightarrow>
          ((w ! (i - 1)) p, (w ! i) p) = ((w' ! (i - 1)) p, (w' ! i) p)"
    by (simp add: less_imp_diff_less)
  then show ?thesis
    unfolding roc_values_def agree_length[OF assms(1), symmetric]
    by (intro map_filter_cong_set) simp
qed

lemma roc_sample_agree:
  assumes "list_all2 agree w w'" "p \<in> fst ` set REDLINE_LIMITS" "i < length w"
  shows "roc_sample w p th i = roc_sample w' p th i"
proof -
  have i1: "i - 1 < length w" using assms(3) by simp
  show ?thesis
    unfolding roc_sample_def
      agree_time[OF agree_nth[OF assms(1,3)]] agree_param[OF agree_nth[OF assms(1,3)] assms(2)]
      agree_param[OF agree_nth[OF assms(1) i1] assms(2)] ..
qed

lemma detectRateOfChange_agree:
  assumes "list_all2 agree w w'" "fst ` set st \<subseteq> fst ` set REDLINE_LIMITS"
  shows "detectRateOfChange w st acc = detectRateOfChange w' st acc"
  unfolding detectRateOfChange_def
proof (rule fold_cong[OF refl refl])
  fix x assume "x \<in> set st"
  then have "fst x \<in> fst ` set st" by (rule imageI)
  then have "fst x \<in> fst ` set REDLINE_LIMITS" using assms(2) by (rule subsetD[rotated])
  then obtain p s where x: "x = (p, s)" and p: "p \<in> fst ` set REDLINE_LIMITS"
    by (cases x) simp
  have "\<And>th acc. fold (roc_sample w p th) [1..<length w] acc
              = fold (roc_sample w' p th) [1..<length w'] acc"
    by (rule fold_cong) (simp_all add: agree_length[OF assms(1)] roc_sample_agree[OF assms(1) p])
  then show "detectRateOfChange_param w x = detectRateOfChange_param w' x"
    by (simp add: detectRateOfChange_param_def x fun_eq_iff roc_values_agree[OF assms(1) p] Let_def)
qed

lemma redline_sample_agree:
  assumes "list_all2 agree w w'" "p \<in> fst ` set REDLINE_LIMITS" "i < length w"
  shows "redline_sample w p lm i = redline_sample w' p lm i"
  unfolding redline_sample_def
    agree_time[OF agree_nth[OF assms(1,3)]] agree_param[OF agree_nth[OF assms(1,3)] assms(2)] ..

lemma detectRedline_agree:
  assumes "list_all2 agree w w'"
  shows "detectRedlineViolations w acc = detectRedlineViolations w' acc"
  unfolding detectRedlineViolations_def
proof (rule fold_cong[OF refl refl])
  fix x assume xin: "x \<in> set REDLINE_LIMITS"
  then have "fst x \<in> fst ` set REDLINE_LIMITS" by (rule imageI)
  then obtain p lm where x: "x = (p, lm)" and p: "p \<in> fst ` set REDLINE_LIMITS"
    by (cases x) simp
  have "\<And>acc. fold (redline_sample w p lm) [0..<length w] acc
              = fold (redline_sample w' p lm) [0..<length w'] acc"
    by (rule fold_cong) (simp_all add: agree_length[OF assms(1)] redline_sample_agree[OF assms(1) p])
  then show "detectRedline_param w x = detectRedline_param w' x"
    by (simp add: detectRedline_param_def x fun_eq_iff)
qed

lemma map_filter_agree:
  "list_all2 agree xs ys \<Longrightarrow> p \<in> fst ` set REDLINE_LIMITS \<Longrightarrow>
   List.map_filter (\<lambda>d. d p) xs = List.map_filter (\<lambda>d. d p) ys"
proof (induction rule: list_all2_induct)
  case Nil
  then show ?case by simp
next
  case (Cons x xs y ys)
  have "x p = y p" using Cons.hyps(1) Cons.prems by (rule agree_param)
  then show ?case using Cons by (auto simp: List.map_filter_simps split: option.splits)
qed

lemma window_values_agree:
  assumes "list_all2 agree w w'" "p \<in> fst ` set REDLINE_LIMITS"
  shows "window_values w p i = window_values w' p i"
  unfolding window_values_def
  by (rule map_filter_agree[OF _ assms(2)]) (intro list_all2_takeI list_all2_dropI assms(1))

lemma sustained_sample_agree:
  assumes "list_all2 agree w w'" "p \<in> fst ` set REDLINE_LIMITS" "i < length w"
  shows "sustained_sample w p s i = sustained_sample w' p s i"
  unfolding sustained_sample_def window_dev_def
    agree_time[OF agree_nth[OF assms(1,3)]] window_values_agree[OF assms(1,2)] ..

lemma detectSustained_agree:
  assumes "list_all2 agree w w'" "fst ` set st \<subseteq> fst ` set REDLINE_LIMITS"
  shows "detectSustainedDeviations w st acc = detectSustainedDeviations w' st acc"
  unfolding detectSustainedDeviations_def
proof (rule fold_cong[OF refl refl])
  fix x assume "x \<in> set st"
  then have "fst x \<in> fst ` set st" by (rule imageI)
  then have "fst x \<in> fst ` set REDLINE_LIMITS" using assms(2) by (rule subsetD[rotated])
  then obtain p s where x: "x = (p, s)" and p: "p \<in> fst ` set REDLINE_LIMITS"
    by (cases x) simp
  have "\<And>acc. fold (sustained_sample w p s) [WIN..<length w] acc
              = fold (sustained_sample w' p s) [WIN..<length w'] acc"
    by (rule fold_cong) (simp_all add: agree_length[OF assms(1)] sustained_sample_agree[OF assms(1) p])
  then show "detectSustained_param w x = detectSustained_param w' x"
    by (simp add: detectSustained_param_def x fun_eq_iff)
qed

lemma detections_agree:
  assumes "list_all2 agree w w'" "fst ` set st \<subseteq> fst ` set REDLINE_LIMITS"
  shows "detections w st = detections w' st"
  by (simp add: detections_def detectZScore_agree[OF assms] detectRateOfChange_agree[OF assms]
        detectRedline_agree[OF assms(1)] detectSustained_agree[OF assms])

lemma detectAll_agree:
  assumes "list_all2 agree ds ds'"
  shows "fst (detectAll (constructor ds)) = fst (detectAll (constructor ds'))"
proof -
  have w: "list_all2 agree (working_set ds) (working_set ds')"
    by (rule working_set_agree[OF assms])
  have e: "working_set ds = [] \<longleftrightarrow> working_set ds' = []"
    using agree_length[OF w] by auto
  have k: "fst ` set (computeStats (working_set ds') []) \<subseteq> fst ` set REDLINE_LIMITS"
    using keys_computeStats[of "working_set ds'" "[]"] by simp
  show ?thesis
    using e k
    by (simp add: detectAll_def anomalies_detectAll_run constructor_def
          computeStats_agree[OF w] detections_agree[OF w])
qed


text \<open>
  Claim C10. After any number of runs of a detector built on some records, every anomaly
  that \<open>detectAll\<close> returns, of whatever type, has a parameter that is a key of the redline
  table. What the records hold under other names has no effect: two record lists that
  agree on the mission times and on the values under the keys of the table give the same
  anomaly list.
\<close>

theorem C10_parameters_in_table:
  "(\<forall>a \<in> set (fst (detectAll ((detectAll_run ^^ n) (constructor ds)))).
      parameter a \<in> fst ` set REDLINE_LIMITS)
   \<and> (list_all2 agree ds ds' \<longrightarrow>
        fst (detectAll (constructor ds)) = fst (detectAll (constructor ds')))"
  using parameter_detectAll_run[OF keys_runs[of n ds]] detectAll_agree[of ds ds']
  by (simp add: detectAll_def)

theorem C10_parameters_in_table_witness:
  "parameter \<lparr>type = Redline_Violation, severity = CAUTION, parameter = ''velocity_ms'',
        paramLabel = ''Velocity'', a_value = Fin 8201,
        detail = RedlineFields (Fin 8200) (Fin 1) HIGH (fl (1 / 100)),
        unit = ''m/s'', missionTime = Fin 0, index = 0\<rparr> \<in> fst ` set REDLINE_LIMITS
   \<and> list_all2 agree [single_record 0 ''velocity_ms'' (Fin 8201)]
        [(single_record 0 ''velocity_ms'' (Fin 8201))(''cabin_pressure_pa'' \<mapsto> Fin 999999)]
   \<and> fst (detectAll (constructor
        [(single_record 0 ''velocity_ms'' (Fin 8201))(''cabin_pressure_pa'' \<mapsto> Fin 999999)]))
     = [\<lparr>type = Redline_Violation, severity = CAUTION, parameter = ''velocity_ms'',
        paramLabel = ''Velocity'', a_value = Fin 8201,
        detail = RedlineFields (Fin 8200) (Fin 1) HIGH (fl (1 / 100)),
        unit = ''m/s'', missionTime = Fin 0, index = 0\<rparr>]"
proof -
  let ?r = "single_record 0 ''velocity_ms'' (Fin 8201)"
  have a: "list_all2 agree [?r] [?r(''cabin_pressure_pa'' \<mapsto> Fin 999999)]"
    by (simp add: agree_def REDLINE_LIMITS_def)
  have r: "fst (detectAll (constructor [?r])) = [\<lparr>type = Redline_Violation, severity = CAUTION,
        parameter = ''velocity_ms'', paramLabel = ''Velocity'', a_value = Fin 8201,
        detail = RedlineFields (Fin 8200) (Fin 1) HIGH (fl (1 / 100)),
        unit = ''m/s'', missionTime = Fin 0, index = 0\<rparr>]"
    by (simp add: detectAll_def detectAll_velocity_high)
  show ?thesis
    using C10_parameters_in_table[of 0 "[?r]" "[?r(''cabin_pressure_pa'' \<mapsto> Fin 999999)]"] a r
    by simp
qed

section \<open>Events partition the anomalies\<close>

lemma mset_greedy_events:
  "mset (concat (map ev_anomalies (greedy_events k xs))) = mset xs"
proof (induction k xs rule: greedy_events.induct)
  case (1 eid)
  then show ?case by simp
next
  case (2 eid a xs)
  have "mset (filter (within_win (missionTime a)) xs)
          + mset (filter (\<lambda>b. \<not> within_win (missionTime a) b) xs) = mset xs"
    by (induction xs) auto
  then show ?case using 2 by (simp add: greedy_event_def)
qed

lemma js_max_ge:
  "x \<noteq> NaN \<Longrightarrow> y \<noteq> NaN \<Longrightarrow> js_max x y \<noteq> NaN \<and> \<not> js_gt x (js_max x y)"
  by (cases x; cases y) (simp_all add: js_max_def)

lemma js_gt_trans_neg:
  "\<not> js_gt a b \<Longrightarrow> \<not> js_gt b c \<Longrightarrow> b \<noteq> NaN \<Longrightarrow> \<not> js_gt a c"
  by (cases a; cases b; cases c) simp_all

lemma foldl_js_max_ge:
  "x \<noteq> NaN \<Longrightarrow> \<forall>y \<in> set ys. y \<noteq> NaN \<Longrightarrow>
   foldl js_max x ys \<noteq> NaN \<and> \<not> js_gt x (foldl js_max x ys)"
proof (induction ys arbitrary: x)
  case Nil
  then show ?case by (cases x) simp_all
next
  case (Cons y ys)
  have m: "js_max x y \<noteq> NaN" "\<not> js_gt x (js_max x y)"
    using js_max_ge[of x y] Cons.prems by auto
  have "foldl js_max (js_max x y) ys \<noteq> NaN \<and> \<not> js_gt (js_max x y) (foldl js_max (js_max x y) ys)"
    using Cons.IH[OF m(1)] Cons.prems by simp
  then show ?case using m js_gt_trans_neg[of x "js_max x y"] by auto
qed

lemma within_win_not_NaN: "within_win t a \<Longrightarrow> missionTime a \<noteq> NaN"
  by (cases "missionTime a"; cases t) (auto simp: within_win_def js_lt_def js_sub_def TIME_WIN_def)

lemma greedy_event_ok:
  assumes "missionTime a \<noteq> NaN" "\<forall>b \<in> set bs. within_win (missionTime a) b"
  shows "ev_anomalies (greedy_event k a bs) \<noteq> []
       \<and> js_ge (endTime (greedy_event k a bs)) (startTime (greedy_event k a bs))
       \<and> ev_count (greedy_event k a bs) = length (ev_anomalies (greedy_event k a bs))"
proof -
  have "\<forall>y \<in> set (map missionTime bs). y \<noteq> NaN"
    using assms(2) within_win_not_NaN by auto
  from foldl_js_max_ge[OF assms(1) this]
  show ?thesis
    using assms(1)
    by (simp add: greedy_event_def js_ge_def finish_event_def cluster.defs event.defs)
qed

lemma greedy_events_ok:
  assumes "\<forall>a \<in> set xs. missionTime a \<noteq> NaN" "e \<in> set (greedy_events k xs)"
  shows "ev_anomalies e \<noteq> [] \<and> js_ge (endTime e) (startTime e)
         \<and> ev_count e = length (ev_anomalies e)"
  using assms
proof (induction k xs rule: greedy_events.induct)
  case (1 eid)
  then show ?case by simp
next
  case (2 eid a xs)
  from 2(3) consider "e = greedy_event eid a (filter (within_win (missionTime a)) xs)"
    | "e \<in> set (greedy_events (eid + 1) (filter (\<lambda>b. \<not> within_win (missionTime a) b) xs))"
    by auto
  then show ?case
  proof cases
    case 1
    then show ?thesis
      using greedy_event_ok[of a "filter (within_win (missionTime a)) xs" eid] 2(2) by simp
  next
    case 2
    then show ?thesis using "2.IH" "2.prems"(1) by simp
  qed
qed

lemma working_set_time:
  "d \<in> set (working_set ds) \<Longrightarrow> mission_time_s d \<noteq> NaN \<and> js_ge (mission_time_s d) (Fin 0)"
  by (auto simp: working_set_def mission_time_s_def js_ge_def split: option.splits)

lemma detections_time:
  assumes "a \<in> set (detections (working_set ds) st)"
  shows "missionTime a \<noteq> NaN"
proof -
  from detections_cases[OF assms]
  have "index a < length (working_set ds)"
    and "missionTime a = mission_time_s (working_set ds ! index a)" by auto
  then show ?thesis using working_set_time[of "working_set ds ! index a" ds] by simp
qed

lemma events_detectAll_run:
  "working_set (data s) \<noteq> [] \<Longrightarrow>
   events (detectAll_run s) = Some (greedy_events 1 (anomalies (detectAll_run s)))"
  by (simp add: detectAll_run_nonempty clusterAnomalies_events anomalies_clusterAnomalies)

lemma detectAll_run_partition:
  assumes "working_set (data s) \<noteq> []"
  shows "\<exists>evs. events (detectAll_run s) = Some evs
     \<and> mset (concat (map ev_anomalies evs)) = mset (anomalies (detectAll_run s))
     \<and> (\<forall>e \<in> set evs. ev_anomalies e \<noteq> [] \<and> js_ge (endTime e) (startTime e)
                         \<and> ev_count e = length (ev_anomalies e))
     \<and> sum_list (map ev_count evs) = length (anomalies (detectAll_run s))"
proof -
  let ?xs = "anomalies (detectAll_run s)"
  let ?evs = "greedy_events 1 ?xs"
  have t: "\<forall>a \<in> set ?xs. missionTime a \<noteq> NaN"
    using assms detections_time by (auto simp: anomalies_detectAll_run set_sort_anomalies)
  have ok: "\<forall>e \<in> set ?evs. ev_anomalies e \<noteq> [] \<and> js_ge (endTime e) (startTime e)
                         \<and> ev_count e = length (ev_anomalies e)"
    using greedy_events_ok[OF t] by blast
  have m: "mset (concat (map ev_anomalies ?evs)) = mset ?xs" by (rule mset_greedy_events)
  have "sum_list (map ev_count ?evs) = sum_list (map (\<lambda>e. length (ev_anomalies e)) ?evs)"
    using ok by (intro arg_cong[where f = sum_list] map_cong) auto
  also have "\<dots> = length (concat (map ev_anomalies ?evs))"
    by (simp add: length_concat comp_def)
  also have "\<dots> = length ?xs" using m by (metis size_mset)
  finally show ?thesis using ok m events_detectAll_run[OF assms] by simp
qed


lemma data_runs: "data ((detectAll_run ^^ n) (constructor ds)) = ds"
  by (induction n) (simp_all add: data_detectAll_run constructor_def)

lemma runs_empty:
  "working_set ds = [] \<Longrightarrow> (detectAll_run ^^ n) (constructor ds) = constructor ds"
  by (induction n) (simp_all add: detectAll_run_constructor_empty)

text \<open>
  Claim C9. After every run of a detector built on some records, the events partition the
  anomaly list: the members of the events, taken together, are the anomalies of the list,
  each as often as it occurs there; every event has a member, its start time is at most
  its end time and its count is the number of its members; the counts add up to the
  number of anomalies. While no run has clustered (the working set is empty) there are no
  events and the anomaly list is empty.
\<close>

theorem C9_events_partition:
  "(case events (snd (detectAll ((detectAll_run ^^ n) (constructor ds)))) of
      None \<Rightarrow> fst (detectAll ((detectAll_run ^^ n) (constructor ds))) = []
    | Some evs \<Rightarrow>
        (mset (concat (map ev_anomalies evs))
          = mset (fst (detectAll ((detectAll_run ^^ n) (constructor ds)))))
        \<and> (\<forall>e \<in> set evs. ev_anomalies e \<noteq> [] \<and> js_ge (endTime e) (startTime e)
                            \<and> ev_count e = length (ev_anomalies e))
        \<and> (sum_list (map ev_count evs)
          = length (fst (detectAll ((detectAll_run ^^ n) (constructor ds))))))"
proof (cases "working_set ds = []")
  case True
  have "detectAll ((detectAll_run ^^ n) (constructor ds)) = ([], constructor ds)"
    unfolding runs_empty[OF True] detectAll_def detectAll_run_constructor_empty[OF True]
    by (simp add: constructor_def)
  then show ?thesis
    by (simp add: constructor_def)
next
  case False
  then have "working_set (data ((detectAll_run ^^ n) (constructor ds))) \<noteq> []"
    by (simp add: data_runs)
  from detectAll_run_partition[OF this] show ?thesis
    by (auto simp: detectAll_def)
qed

theorem C9_events_partition_witness:
  "events (snd (detectAll ((detectAll_run ^^ 1) (constructor [single_record 0 ''velocity_ms'' (Fin 8201)]))))
     = Some (greedy_events 1 [\<lparr>type = Redline_Violation, severity = CAUTION, parameter = ''velocity_ms'',
        paramLabel = ''Velocity'', a_value = Fin 8201,
        detail = RedlineFields (Fin 8200) (Fin 1) HIGH (fl (1 / 100)),
        unit = ''m/s'', missionTime = Fin 0, index = 0\<rparr>])
   \<and> map ev_count (greedy_events 1 [\<lparr>type = Redline_Violation, severity = CAUTION, parameter = ''velocity_ms'',
        paramLabel = ''Velocity'', a_value = Fin 8201,
        detail = RedlineFields (Fin 8200) (Fin 1) HIGH (fl (1 / 100)),
        unit = ''m/s'', missionTime = Fin 0, index = 0\<rparr>]) = [1]
   \<and> sum_list (map ev_count (greedy_events 1 [\<lparr>type = Redline_Violation, severity = CAUTION, parameter = ''velocity_ms'',
        paramLabel = ''Velocity'', a_value = Fin 8201,
        detail = RedlineFields (Fin 8200) (Fin 1) HIGH (fl (1 / 100)),
        unit = ''m/s'', missionTime = Fin 0, index = 0\<rparr>])) = 1"
proof -
  let ?r = "single_record 0 ''velocity_ms'' (Fin 8201)"
  let ?s = "detectAll_run (constructor [?r])"
  have run: "(detectAll_run ^^ 1) (constructor [?r]) = ?s" by simp
  have w: "working_set (data ?s) \<noteq> []"
    by (simp add: data_detectAll_run constructor_def working_set_single)
  have an: "anomalies (detectAll_run ?s) = anomalies ?s" by (simp add: detectAll_run_idem)
  have ev: "events (snd (detectAll ?s)) = Some (greedy_events 1 (anomalies ?s))"
    using events_detectAll_run[OF w] an by (simp add: detectAll_def)
  show ?thesis
    using C9_events_partition[of 1 "[?r]"] ev
    unfolding run
    by (simp add: detectAll_def an detectAll_velocity_high finish_event_def cluster.defs event.defs
          greedy_event_def)
qed

section \<open>The baselines\<close>

lemma foldl_add_map: "foldl (\<lambda>a v. js_add a (g v)) a vs = foldl js_add a (map g vs)"
  by (induction vs arbitrary: a) simp_all

lemma param_baseline_mean:
  "mean (param_baseline vs) = js_div (js_sum vs) (Fin (real (length vs)))"
  by (simp add: param_baseline_def js_sum_def Let_def)

lemma param_baseline_std:
  "std (param_baseline vs) = js_sqrt (population_variance vs (mean (param_baseline vs)))"
  by (simp add: param_baseline_def population_variance_def js_sum_def Let_def
        foldl_add_map[symmetric])

lemma param_baseline_min_max:
  "b_min (param_baseline vs) = Math_min vs" "b_max (param_baseline vs) = Math_max vs"
  by (simp_all add: param_baseline_def Let_def)

lemma fold_js_min_Fin:
  "fold (\<lambda>v m. js_min m v) (map Fin xs) (Fin a) = Fin (fold min xs a)"
  by (induction xs arbitrary: a) (auto simp: js_min_def min_def)

lemma fold_js_max_Fin:
  "fold (\<lambda>v m. js_max m v) (map Fin xs) (Fin a) = Fin (fold max xs a)"
  by (induction xs arbitrary: a) (auto simp: js_max_def max_def)

lemma Math_min_Fin: "xs \<noteq> [] \<Longrightarrow> Math_min (map Fin xs) = Fin (Min (set xs))"
proof (cases xs)
  case Nil
  then show "xs \<noteq> [] \<Longrightarrow> ?thesis" by simp
next
  case (Cons x ys)
  have "Min (set (x # ys)) = fold min ys x" by (rule Min.set_eq_fold)
  moreover have "js_min PInf (Fin x) = Fin x" by (simp add: js_min_def)
  ultimately show ?thesis
    by (simp add: Math_min_def Cons fold_js_min_Fin)
qed

lemma Math_max_Fin: "xs \<noteq> [] \<Longrightarrow> Math_max (map Fin xs) = Fin (Max (set xs))"
proof (cases xs)
  case Nil
  then show "xs \<noteq> [] \<Longrightarrow> ?thesis" by simp
next
  case (Cons x ys)
  have "Max (set (x # ys)) = fold max ys x" by (rule Max.set_eq_fold)
  moreover have "js_max NInf (Fin x) = Fin x" by (simp add: js_max_def)
  ultimately show ?thesis
    by (simp add: Math_max_def Cons fold_js_max_Fin)
qed

lemma param_baseline_1_3:
  "param_baseline [Fin 1, Fin 3] = \<lparr>mean = Fin 2, std = Fin 1, b_min = Fin 1, b_max = Fin 3\<rparr>"
  by (simp add: param_baseline_def Let_def js_pow2_def js_sub_def Math_min_def Math_max_def
        js_min_def js_max_def)

lemma table_keys_distinct: "distinct (map fst REDLINE_LIMITS)"
  by (simp add: REDLINE_LIMITS_def)

lemma map_of_computeStats:
  "map_of (computeStats ds st) p =
     (if p \<in> fst ` set REDLINE_LIMITS \<and> param_values ds p \<noteq> []
      then Some (param_baseline (param_values ds p)) else map_of st p)"
  by (simp add: computeStats_def map_of_fold_computeStats)

lemma param_values_alt:
  "param_values ds p = concat (map (\<lambda>d. case d p of None \<Rightarrow> [] | Some v \<Rightarrow> if v = NaN then [] else [v]) ds)"
  by (induction ds) (auto simp: param_values_def List.map_filter_simps isNaN_def split: option.splits)

lemma stats_detectAll_constructor:
  "stats (snd (detectAll (constructor ds)))
     = (if working_set ds = [] then [] else computeStats (working_set ds) [])"
  by (simp add: detectAll_def stats_detectAll_run constructor_def)

lemma stats_runs:
  "stats ((detectAll_run ^^ Suc n) (constructor ds))
     = (if working_set ds = [] then [] else computeStats (working_set ds) [])"
  unfolding detectAll_runs by (simp add: stats_detectAll_run constructor_def)

text \<open>
  Claim C8, as stated, fails on infinite values. A record whose velocity is \<open>Infinity\<close>
  has no finite value of that parameter, yet the run stores a baseline for it, computed
  from the infinite value: mean, minimum and maximum \<open>Infinity\<close> and standard deviation NaN.
\<close>

theorem C8_baseline_counterexample:
  "finite_values (working_set [single_record 0 ''velocity_ms'' PInf]) ''velocity_ms'' = []
   \<and> stats (snd (detectAll (constructor [single_record 0 ''velocity_ms'' PInf])))
     = [(''velocity_ms'', \<lparr>mean = PInf, std = NaN, b_min = PInf, b_max = PInf\<rparr>)]"
proof -
  have "computeStats [single_record 0 ''velocity_ms'' PInf] [] =
      [(''velocity_ms'', \<lparr>mean = PInf, std = NaN, b_min = PInf, b_max = PInf\<rparr>)]"
    by (simp add: computeStats_def REDLINE_LIMITS_def computeStats_param_def param_values_def
          single_record_def Let_def isNaN_def js_pow2_def js_sub_def Math_min_def Math_max_def
          js_min_def js_max_def)
  then show ?thesis
    by (simp add: stats_detectAll_constructor working_set_single)
       (simp add: finite_values_def single_record_def)
qed

text \<open>
  Claim C8, amended. The values of a parameter that enter its baseline are the values
  that are numbers and not NaN, \<open>Infinity\<close> and \<open>-Infinity\<close> included. Computing the
  baselines gives a key of the redline table with at least one such value the baseline
  of exactly these values and leaves every other name as it was. The baseline of the
  values is their sum divided by their number \<open>n\<close>, the square root of the population
  variance \<open>\<Sum>(x - mean)\<^sup>2 / n\<close> about that mean, both in binary64 arithmetic, their minimum
  and their maximum; the values 1 and 3 have mean 2 and standard deviation 1. A detector
  built by the constructor has no baselines before its first run; after every run the
  baselines are those of the working set, and a name without such a value in the working
  set is absent from them.
\<close>

theorem C8_baseline_amended:
  "map_of (computeStats ds st) p =
     (if p \<in> fst ` set REDLINE_LIMITS \<and> param_values ds p \<noteq> []
      then Some (param_baseline (param_values ds p)) else map_of st p)
   \<and> param_values ds p
       = concat (map (\<lambda>d. case d p of None \<Rightarrow> [] | Some v \<Rightarrow> if v = NaN then [] else [v]) ds)
   \<and> mean (param_baseline vs) = js_div (js_sum vs) (Fin (real (length vs)))
   \<and> std (param_baseline vs) = js_sqrt (population_variance vs (mean (param_baseline vs)))
   \<and> b_min (param_baseline vs) = Math_min vs
   \<and> b_max (param_baseline vs) = Math_max vs
   \<and> (xs \<noteq> [] \<longrightarrow> Math_min (map Fin xs) = Fin (Min (set xs))
                   \<and> Math_max (map Fin xs) = Fin (Max (set xs)))
   \<and> param_baseline [Fin 1, Fin 3] = \<lparr>mean = Fin 2, std = Fin 1, b_min = Fin 1, b_max = Fin 3\<rparr>
   \<and> map_of (stats ((detectAll_run ^^ n) (constructor ds))) p =
       (if 0 < n \<and> working_set ds \<noteq> [] \<and> p \<in> fst ` set REDLINE_LIMITS
           \<and> param_values (working_set ds) p \<noteq> []
        then Some (param_baseline (param_values (working_set ds) p)) else None)"
proof -
  have "map_of (stats ((detectAll_run ^^ n) (constructor ds))) p =
       (if 0 < n \<and> working_set ds \<noteq> [] \<and> p \<in> fst ` set REDLINE_LIMITS
           \<and> param_values (working_set ds) p \<noteq> []
        then Some (param_baseline (param_values (working_set ds) p)) else None)"
  proof (cases n)
    case 0
    then show ?thesis by (simp add: constructor_def)
  next
    case (Suc m)
    show ?thesis unfolding Suc stats_runs by (simp add: map_of_computeStats)
  qed
  moreover have "xs \<noteq> [] \<longrightarrow> Math_min (map Fin xs) = Fin (Min (set xs))
                   \<and> Math_max (map Fin xs) = Fin (Max (set xs))"
    using Math_min_Fin[of xs] Math_max_Fin[of xs] by blast
  ultimately show ?thesis
    using param_values_alt[of ds p] map_of_computeStats[of ds st p]
          param_baseline_mean[of vs] param_baseline_std[of vs] param_baseline_min_max[of vs]
          param_baseline_1_3
    by blast
qed

theorem C8_baseline_amended_witness:
  "[1, 3 :: real] \<noteq> []
   \<and> Math_min (map Fin [1, 3]) = Fin 1 \<and> Math_max (map Fin [1, 3]) = Fin 3
   \<and> map_of (computeStats [single_record 0 ''velocity_ms'' (Fin 1),
                            single_record 1 ''velocity_ms'' NaN,
                            single_record 2 ''velocity_ms'' (Fin 3)] []) ''velocity_ms''
     = Some \<lparr>mean = Fin 2, std = Fin 1, b_min = Fin 1, b_max = Fin 3\<rparr>
   \<and> map_of (computeStats [single_record 0 ''velocity_ms'' (Fin 1),
                            single_record 1 ''velocity_ms'' NaN,
                            single_record 2 ''velocity_ms'' (Fin 3)] []) ''altitude_km'' = None"
proof -
  let ?ds = "[single_record 0 ''velocity_ms'' (Fin 1), single_record 1 ''velocity_ms'' NaN,
              single_record 2 ''velocity_ms'' (Fin 3)]"
  have v: "param_values ?ds ''velocity_ms'' = [Fin 1, Fin 3]"
    by (simp add: param_values_def List.map_filter_simps single_record_def isNaN_def)
  have a: "param_values ?ds ''altitude_km'' = []"
    by (simp add: param_values_def List.map_filter_simps single_record_def isNaN_def)
  have k: "''velocity_ms'' \<in> fst ` set REDLINE_LIMITS"
    by (simp add: REDLINE_LIMITS_def)
  have "Math_min (map Fin [1, 3]) = Fin 1 \<and> Math_max (map Fin [1, 3]) = Fin 3"
    using C8_baseline_amended[where xs = "[1, 3]" and ds = ?ds and p = "''velocity_ms''"
        and st = "[]" and vs = "[Fin 1, Fin 3]" and n = 1] by (simp add: single_record_def)
  moreover have "map_of (computeStats ?ds []) ''velocity_ms''
      = Some \<lparr>mean = Fin 2, std = Fin 1, b_min = Fin 1, b_max = Fin 3\<rparr>"
    using C8_baseline_amended[where xs = "[1, 3]" and ds = ?ds and p = "''velocity_ms''"
        and st = "[]" and vs = "[Fin 1, Fin 3]" and n = 1] k
    unfolding v by (simp add: single_record_def)
  moreover have "map_of (computeStats ?ds []) ''altitude_km'' = None"
    using C8_baseline_amended[where xs = "[1, 3]" and ds = ?ds and p = "''altitude_km''"
        and st = "[]" and vs = "[Fin 1, Fin 3]" and n = 1]
    unfolding a by (simp add: single_record_def)
  ultimately show ?thesis by simp
qed

section \<open>Anomalies of one kind in the result\<close>

lemma fold_extends:
  assumes "\<And>x acc. x \<in> set xs \<Longrightarrow> \<exists>new. f x acc = acc @ new \<and> list_all Q new"
  shows "\<exists>new. fold f xs acc = acc @ new \<and> list_all Q new"
  using assms
proof (induction xs arbitrary: acc)
  case Nil
  then show ?case by simp
next
  case (Cons x xs)
  obtain n1 where n1: "f x acc = acc @ n1" "list_all Q n1"
    using Cons.prems[of x acc] by auto
  obtain n2 where n2: "fold f xs (f x acc) = f x acc @ n2" "list_all Q n2"
    using Cons.IH[of "f x acc"] Cons.prems by auto
  show ?case using n1 n2 by (intro exI[of _ "n1 @ n2"]) simp
qed

lemma zscore_sample_extends:
  "\<exists>new. zscore_sample ds p s i acc = acc @ new
         \<and> list_all (\<lambda>a. type a = Z_Score_Outlier \<and> parameter a = p) new"
  by (auto simp: zscore_sample_def Let_def split: option.splits)

lemma roc_sample_extends:
  "\<exists>new. roc_sample ds p th i acc = acc @ new
         \<and> list_all (\<lambda>a. type a = Rapid_Change \<and> parameter a = p) new"
  by (auto simp: roc_sample_def Let_def split: option.splits)

lemma redline_sample_extends:
  "\<exists>new. redline_sample ds p lm i acc = acc @ new
         \<and> list_all (\<lambda>a. type a = Redline_Violation \<and> parameter a = p) new"
  by (auto simp: redline_sample_def Let_def split: option.splits)

lemma sustained_sample_extends:
  "\<exists>new. sustained_sample ds p s i acc = acc @ new
         \<and> list_all (\<lambda>a. type a = Sustained_Deviation \<and> parameter a = p) new"
  by (auto simp: sustained_sample_def Let_def split: option.splits)

lemma extends_weaken:
  "\<exists>new. r = acc @ new \<and> list_all Q new \<Longrightarrow> (\<And>a. Q a \<Longrightarrow> Q' a) \<Longrightarrow>
   \<exists>new. r = acc @ new \<and> list_all Q' new"
  by (auto simp: list_all_iff)

lemma detectZScore_param_extends:
  "\<exists>new. detectZScore_param ds (p, s) acc = acc @ new
         \<and> list_all (\<lambda>a. type a = Z_Score_Outlier \<and> parameter a = p) new"
  using fold_extends[of "[0..<length ds]" "zscore_sample ds p s", OF zscore_sample_extends]
  by (simp add: detectZScore_param_def)

lemma detectRateOfChange_param_extends:
  "\<exists>new. detectRateOfChange_param ds (p, s) acc = acc @ new
         \<and> list_all (\<lambda>a. type a = Rapid_Change \<and> parameter a = p) new"
  using fold_extends[of "[1..<length ds]" "roc_sample ds p th" for th, OF roc_sample_extends]
  by (simp add: detectRateOfChange_param_def Let_def)

lemma detectRedline_param_extends:
  "\<exists>new. detectRedline_param ds (p, lm) acc = acc @ new
         \<and> list_all (\<lambda>a. type a = Redline_Violation \<and> parameter a = p) new"
  using fold_extends[of "[0..<length ds]" "redline_sample ds p lm", OF redline_sample_extends]
  by (simp add: detectRedline_param_def)

lemma detectSustained_param_extends:
  "\<exists>new. detectSustained_param ds (p, s) acc = acc @ new
         \<and> list_all (\<lambda>a. type a = Sustained_Deviation \<and> parameter a = p) new"
  using fold_extends[of "[WIN..<length ds]" "sustained_sample ds p s", OF sustained_sample_extends]
  by (simp add: detectSustained_param_def)

lemma detectRateOfChange_extends:
  "\<exists>new. detectRateOfChange ds st acc = acc @ new \<and> list_all (\<lambda>a. type a = Rapid_Change) new"
  unfolding detectRateOfChange_def
proof (rule fold_extends)
  fix x :: "string \<times> baseline" and acc
  obtain p s where x: "x = (p, s)" by (cases x)
  show "\<exists>new. detectRateOfChange_param ds x acc = acc @ new \<and> list_all (\<lambda>a. type a = Rapid_Change) new"
    unfolding x by (rule extends_weaken[OF detectRateOfChange_param_extends]) simp
qed

lemma detectRedline_extends:
  "\<exists>new. detectRedlineViolations ds acc = acc @ new \<and> list_all (\<lambda>a. type a = Redline_Violation) new"
  unfolding detectRedlineViolations_def
proof (rule fold_extends)
  fix x :: "string \<times> limit" and acc
  obtain p lm where x: "x = (p, lm)" by (cases x)
  show "\<exists>new. detectRedline_param ds x acc = acc @ new \<and> list_all (\<lambda>a. type a = Redline_Violation) new"
    unfolding x by (rule extends_weaken[OF detectRedline_param_extends]) simp
qed

lemma detectSustained_extends:
  "\<exists>new. detectSustainedDeviations ds st acc = acc @ new \<and> list_all (\<lambda>a. type a = Sustained_Deviation) new"
  unfolding detectSustainedDeviations_def
proof (rule fold_extends)
  fix x :: "string \<times> baseline" and acc
  obtain p s where x: "x = (p, s)" by (cases x)
  show "\<exists>new. detectSustained_param ds x acc = acc @ new \<and> list_all (\<lambda>a. type a = Sustained_Deviation) new"
    unfolding x by (rule extends_weaken[OF detectSustained_param_extends]) simp
qed

lemma detectZScore_extends:
  "\<exists>new. detectZScoreAnomalies ds st acc = acc @ new \<and> list_all (\<lambda>a. type a = Z_Score_Outlier) new"
  unfolding detectZScoreAnomalies_def
proof (rule fold_extends)
  fix x :: "string \<times> baseline" and acc
  obtain p s where x: "x = (p, s)" by (cases x)
  show "\<exists>new. detectZScore_param ds x acc = acc @ new \<and> list_all (\<lambda>a. type a = Z_Score_Outlier) new"
    unfolding x by (rule extends_weaken[OF detectZScore_param_extends]) simp
qed

lemma filter_extends:
  "\<exists>new. r = acc @ new \<and> list_all Q new \<Longrightarrow> (\<And>a. Q a \<Longrightarrow> \<not> P a) \<Longrightarrow> filter P r = filter P acc"
  by (auto simp: list_all_iff)

text \<open>Filtering the detections by a type keeps what the detector of that type added.\<close>

lemma filter_detections_zscore:
  assumes "\<And>a. P a \<Longrightarrow> type a = Z_Score_Outlier"
  shows "filter P (detections w st) = filter P (detectZScoreAnomalies w st [])"
proof -
  let ?z = "detectZScoreAnomalies w st []"
  let ?r = "detectRateOfChange w st ?z"
  let ?l = "detectRedlineViolations w ?r"
  have "filter P (detections w st) = filter P ?l"
    unfolding detections_def
    by (rule filter_extends[OF detectSustained_extends]) (use assms in auto)
  also have "\<dots> = filter P ?r"
    by (rule filter_extends[OF detectRedline_extends]) (use assms in auto)
  also have "\<dots> = filter P ?z"
    by (rule filter_extends[OF detectRateOfChange_extends]) (use assms in auto)
  finally show ?thesis .
qed

lemma filter_detections_sustained:
  assumes "\<And>a. P a \<Longrightarrow> type a = Sustained_Deviation"
  shows "filter P (detections w st)
       = filter P (detectSustainedDeviations w st
           (detectRedlineViolations w (detectRateOfChange w st (detectZScoreAnomalies w st []))))"
  by (simp add: detections_def)

lemma fold_id:
  "(\<And>x acc. x \<in> set xs \<Longrightarrow> f x acc = acc) \<Longrightarrow> fold f xs acc = acc"
  by (induction xs arbitrary: acc) simp_all

lemma fold_single:
  assumes "k \<in> set js" "distinct js"
    and "\<And>i acc. i \<in> set js \<Longrightarrow> i \<noteq> k \<Longrightarrow> f i acc = acc"
    and "\<And>acc. f k acc = acc @ [a]"
  shows "fold f js acc = acc @ [a]"
  using assms(1,2,3)
proof (induction js arbitrary: acc)
  case Nil
  then show ?case by simp
next
  case (Cons j js)
  show ?case
  proof (cases "j = k")
    case True
    then have "k \<notin> set js" using Cons.prems(2) by simp
    then have "\<And>i acc. i \<in> set js \<Longrightarrow> f i acc = acc"
      using Cons.prems(3) by fastforce
    then have "\<And>acc. fold f js acc = acc" by (rule fold_id)
    then show ?thesis using True assms(4) by simp
  next
    case False
    then have "f j acc = acc" using Cons.prems(3) by simp
    moreover have "k \<in> set js" using Cons.prems(1) False by simp
    ultimately show ?thesis using Cons.IH Cons.prems by simp
  qed
qed

lemma fold_skip:
  "(\<And>x acc. x \<in> set xs \<Longrightarrow> filter P (f x acc) = filter P acc) \<Longrightarrow>
   filter P (fold f xs acc) = filter P acc"
  by (induction xs arbitrary: acc) simp_all

lemma filter_fold_one:
  assumes "distinct (map fst st)" "(p, s) \<in> set st"
    and "\<And>q t acc. (q, t) \<in> set st \<Longrightarrow> q \<noteq> p \<Longrightarrow> filter P (f (q, t) acc) = filter P acc"
    and "\<And>acc. filter P (f (p, s) acc) = filter P acc @ new"
  shows "filter P (fold f st acc) = filter P acc @ new"
  using assms(1,2,3)
proof (induction st arbitrary: acc)
  case Nil
  then show ?case by simp
next
  case (Cons x st)
  obtain q t where x: "x = (q, t)" by (cases x)
  show ?case
  proof (cases "x = (p, s)")
    case True
    have np: "\<And>y. y \<in> set st \<Longrightarrow> fst y \<noteq> p"
      using Cons.prems(1) True by (auto simp: image_iff)
    have "filter P (fold f st (f x acc)) = filter P (f x acc)"
    proof (rule fold_skip)
      fix y acc' assume y: "y \<in> set st"
      obtain q' t' where y': "y = (q', t')" by (cases y)
      have "q' \<noteq> p" using np[OF y] y' by simp
      then show "filter P (f y acc') = filter P acc'"
        using Cons.prems(3)[of q' t' acc'] y y' by simp
    qed
    then show ?thesis using True assms(4) by simp
  next
    case False
    have qp: "q \<noteq> p"
    proof
      assume "q = p"
      then have "fst (p, s) = fst x" "(p, s) \<in> set st" using x False Cons.prems(2) by auto
      then show False using Cons.prems(1) by (auto simp: image_iff)
    qed
    have "filter P (f x acc) = filter P acc" using Cons.prems(3)[of q t acc] qp x by simp
    moreover have "(p, s) \<in> set st" using Cons.prems(2) False by simp
    ultimately show ?thesis using Cons.IH[of "f x acc"] Cons.prems by simp
  qed
qed

lemma distinct_computeStats:
  "distinct (map fst st) \<Longrightarrow> distinct (map fst (computeStats ds st))"
proof -
  have "\<And>ps. distinct (map fst st) \<Longrightarrow> distinct (map fst (fold (computeStats_param ds) ps st))"
  proof -
    fix ps show "distinct (map fst st) \<Longrightarrow> distinct (map fst (fold (computeStats_param ds) ps st))"
      by (induction ps arbitrary: st) (simp_all add: computeStats_param_alt distinct_update)
  qed
  then show "distinct (map fst st) \<Longrightarrow> distinct (map fst (computeStats ds st))"
    by (simp add: computeStats_def)
qed

lemma filter_sort_single:
  assumes "filter P xs = [a]"
  shows "filter P (sort_anomalies xs) = [a]"
proof -
  have "mset (filter P (sort_anomalies xs)) = mset (filter P xs)"
    by (simp add: mset_sort_anomalies)
  then have "mset (filter P (sort_anomalies xs)) = {#a#}" using assms by simp
  then show ?thesis by (simp only: mset_single_iff)
qed

section \<open>A single outlier among thirty samples\<close>

lemma working_set_all:
  "\<forall>d \<in> set ds. js_ge (mission_time_s d) (Fin 0) \<Longrightarrow> working_set ds = ds"
  by (auto simp: working_set_def mission_time_s_def js_ge_def filter_id_conv split: option.splits)

lemma param_values_column:
  "map (\<lambda>d. d p) ds = map (\<lambda>x. Some (Fin x)) xs \<Longrightarrow> param_values ds p = map Fin xs"
proof (induction ds arbitrary: xs)
  case Nil
  then show ?case by (simp add: param_values_def List.map_filter_simps)
next
  case (Cons d ds)
  then obtain x xs' where xs: "xs = x # xs'" by (cases xs) auto
  have "param_values ds p = map Fin xs'" using Cons xs by simp
  moreover have "d p = Some (Fin x)" using Cons.prems xs by simp
  ultimately show ?case
    by (simp add: xs param_values_def List.map_filter_simps isNaN_def)
qed

lemma sum_list_update_real:
  fixes ys :: "real list"
  shows "k < length ys \<Longrightarrow> sum_list (ys[k := v]) = sum_list ys - ys ! k + v"
  by (induction ys arbitrary: k) (auto split: nat.splits)

lemma sum_list_update_nat:
  fixes ys :: "nat list"
  shows "k < length ys \<Longrightarrow> sum_list (ys[k := v]) + ys ! k = sum_list ys + v"
  by (induction ys arbitrary: k) (auto split: nat.splits)

lemma length_outlier: "length (outlier_values k) = 30"
  by (simp add: outlier_values_def)

text \<open>The sum of the thirty values is exact, so the mean is the rounding of \<open>308 / 3\<close>.\<close>

lemma sum_outlier:
  assumes "k < 30"
  shows "js_sum (map Fin (outlier_values k)) = Fin 3080"
proof -
  define ns :: "nat list" where "ns = (replicate 30 100)[k := 180]"
  have v: "map Fin (outlier_values k) = map (\<lambda>n. Fin (real n)) ns"
    by (simp add: outlier_values_def ns_def map_update)
  have "sum_list ns + 100 = 3000 + 180"
    using sum_list_update_nat[of k "replicate 30 100" 180] assms
    by (simp add: ns_def sum_list_replicate)
  then have s: "sum_list ns = 3080" by simp
  have "foldl (\<lambda>acc n. js_add acc (Fin (real n))) (Fin (real 0)) ns
      = Fin (real (0 + sum_list (map (\<lambda>n. n) ns)))"
    by (rule foldl_add_nat) (simp_all add: s)
  then have "foldl (\<lambda>acc n. js_add acc (Fin (real n))) (Fin 0) ns = Fin 3080"
    by (simp add: s)
  then show ?thesis unfolding js_sum_def v foldl_add_map[symmetric] .
qed

lemma fl_308_3: "fl (308 / 3) = Fin (7224524402240171 / 2 ^ 46)"
  by (subst fl_eval[where e = "6" and u = "1 / 2 ^ 46"]) (simp_all add: rne_def pow2_def)

lemma diff_100: "js_sub (Fin 100) (fl (308 / 3)) = Fin dev_low"
  unfolding fl_308_3 dev_low_def js_sub_def js_neg.simps js_add.simps
  by (subst fl_eval[where e = "1" and u = "1 / 2 ^ 51"]) (simp_all add: rne_def pow2_def)

lemma diff_180: "js_sub (Fin 180) (fl (308 / 3)) = Fin dev_high"
  unfolding fl_308_3 dev_high_def js_sub_def js_neg.simps js_add.simps
  by (subst fl_eval[where e = "6" and u = "1 / 2 ^ 46"]) (simp_all add: rne_def pow2_def)

lemma sq_100: "js_pow2 (Fin dev_low) = Fin sq_low"
  unfolding dev_low_def sq_low_def js_pow2_def js_mul.simps
  by (subst fl_eval[where e = "2" and u = "1 / 2 ^ 50"]) (simp_all add: rne_def pow2_def)

lemma sq_180: "js_pow2 (Fin dev_high) = Fin sq_high"
  unfolding dev_high_def sq_high_def js_pow2_def js_mul.simps
  by (subst fl_eval[where e = "12" and u = "1 / 2 ^ 40"]) (simp_all add: rne_def pow2_def)

lemma toFixed2_mean: "toFixed2 (fl (308 / 3)) = fl (10267 / 100)"
  unfolding fl_308_3 by simp

text \<open>The sum of the thirty squares depends on the position of the outlier in its last
  bits; it is enclosed, and with it the variance and the standard deviation.\<close>

lemma sumsq_outlier:
  assumes "k < 30"
  shows "\<exists>s. js_sum (map (\<lambda>x. js_pow2 (js_sub x (fl (308 / 3)))) (map Fin (outlier_values k))) = Fin s
           \<and> 618666666666 / 10 ^ 8 \<le> s \<and> s \<le> 618666666667 / 10 ^ 8"
proof -
  define qs where "qs = (replicate 30 sq_low)[k := sq_high]"
  have m: "map (\<lambda>x. js_pow2 (js_sub x (fl (308 / 3)))) (map Fin (outlier_values k)) = map Fin qs"
    by (simp add: outlier_values_def qs_def map_update diff_100 diff_180 sq_100 sq_180)
  have len: "length qs = 30" by (simp add: qs_def)
  have sum: "sum_list qs = 29 * sq_low + sq_high"
    using assms by (simp add: qs_def sum_list_update_real sum_list_replicate)
  have "set qs \<subseteq> insert sq_high (set (replicate 30 sq_low))"
    unfolding qs_def by (rule set_update_subset_insert)
  then have ge: "\<forall>x \<in> set qs. 1 \<le> x"
    by (auto simp: sq_low_def sq_high_def)
  have "(0 + sum_list qs) * (1 + real (length qs) / 2 ^ 52) \<le> 2 ^ 20"
    by (simp add: sum len sq_low_def sq_high_def)
  moreover have "(2::real) ^ 20 \<le> 2 ^ 1000" by (rule power_increasing) simp_all
  ultimately have big: "(0 + sum_list qs) * (1 + real (length qs) / 2 ^ 52) \<le> 2 ^ 1000"
    by (rule order_trans)
  have "length qs \<le> 2 ^ 52" by (simp add: len)
  from foldl_add_enclose[OF ge _ big this]
  obtain s where s: "foldl js_add (Fin 0) (map Fin qs) = Fin s"
      "(0 + sum_list qs) * (1 - real (length qs) / 2 ^ 52) \<le> s"
      "s \<le> (0 + sum_list qs) * (1 + real (length qs) / 2 ^ 52)"
    by auto
  have "618666666666 / 10 ^ 8 \<le> (0 + sum_list qs) * (1 - real (length qs) / 2 ^ 52)"
    by (simp add: sum len sq_low_def sq_high_def)
  moreover have "(0 + sum_list qs) * (1 + real (length qs) / 2 ^ 52) \<le> 618666666667 / 10 ^ 8"
    by (simp add: sum len sq_low_def sq_high_def)
  ultimately have "618666666666 / 10 ^ 8 \<le> s \<and> s \<le> 618666666667 / 10 ^ 8"
    using s(2,3) by linarith
  then show ?thesis using s(1) unfolding js_sum_def m by blast
qed

lemma sqrt_enclose:
  assumes "a\<^sup>2 \<le> v" "v \<le> b\<^sup>2" "0 \<le> a" "0 \<le> b"
  shows "a \<le> sqrt v" "sqrt v \<le> b"
proof -
  show "a \<le> sqrt v" using assms(1) by (rule real_le_rsqrt)
  show "sqrt v \<le> b" using assms(4,2) by (rule real_le_lsqrt)
qed

lemma baseline_outlier:
  assumes "k < 30"
  shows "mean (param_baseline (map Fin (outlier_values k))) = fl (308 / 3)"
    and "\<exists>sd. std (param_baseline (map Fin (outlier_values k))) = Fin sd
           \<and> 1436043948 / 10 ^ 8 < sd \<and> sd < 1436043949 / 10 ^ 8"
proof -
  let ?vs = "map Fin (outlier_values k)"
  show m: "mean (param_baseline ?vs) = fl (308 / 3)"
    by (simp add: param_baseline_mean sum_outlier[OF assms] length_outlier)
  obtain s where s: "js_sum (map (\<lambda>x. js_pow2 (js_sub x (fl (308 / 3)))) ?vs) = Fin s"
      "618666666666 / 10 ^ 8 \<le> s" "s \<le> 618666666667 / 10 ^ 8"
    using sumsq_outlier[OF assms] by blast
  have pv: "population_variance ?vs (fl (308 / 3)) = fl (s / 30)"
    unfolding population_variance_def s(1) by (simp add: length_outlier)
  have "618666666666 / 10 ^ 8 / 30 \<le> s / 30" "s / 30 \<le> 618666666667 / 10 ^ 8 / 30"
    using s(2,3) by simp_all
  from fl_enclose[OF this]
  obtain v where v: "fl (s / 30) = Fin v"
      "618666666666 / 10 ^ 8 / 30 * (1 - 1 / 2 ^ 53) \<le> v"
      "v \<le> 618666666667 / 10 ^ 8 / 30 * (1 + 1 / 2 ^ 53)"
    by auto
  have vb: "(14360439485 / 10 ^ 9)\<^sup>2 \<le> v" "v \<le> (14360439486 / 10 ^ 9)\<^sup>2"
    using v(2,3) by (simp_all add: power2_eq_square)
  then have v0: "\<not> v < 0" by (smt (verit) zero_le_power2)
  have "14360439485 / 10 ^ 9 \<le> sqrt v" "sqrt v \<le> 14360439486 / 10 ^ 9"
    using sqrt_enclose[OF vb] by simp_all
  from fl_enclose[OF this]
  obtain sd where sd: "fl (sqrt v) = Fin sd"
      "14360439485 / 10 ^ 9 * (1 - 1 / 2 ^ 53) \<le> sd"
      "sd \<le> 14360439486 / 10 ^ 9 * (1 + 1 / 2 ^ 53)"
    by auto
  have "std (param_baseline ?vs) = Fin sd"
    using v0 by (simp add: param_baseline_std m pv v(1) sd(1))
  moreover have "1436043948 / 10 ^ 8 < sd" "sd < 1436043949 / 10 ^ 8"
    using sd(2,3) by simp_all
  ultimately show "\<exists>sd. std (param_baseline ?vs) = Fin sd
           \<and> 1436043948 / 10 ^ 8 < sd \<and> sd < 1436043949 / 10 ^ 8"
    by blast
qed

lemma sd_bounds:
  "1436043948 / 10 ^ 8 < sqrt (1856 / 9)" "sqrt (1856 / 9) < 1436043949 / 10 ^ 8"
proof -
  show "1436043948 / 10 ^ 8 < sqrt (1856 / 9)"
    by (rule real_less_rsqrt) (simp add: power2_eq_square)
  show "sqrt (1856 / 9) < 1436043949 / 10 ^ 8"
    by (rule real_less_lsqrt) (simp_all add: power2_eq_square)
qed

lemma z_outlier: "(180 - 308 / 3) / sqrt (1856 / 9) = sqrt 29"
proof -
  have "(180 - 308 / 3) / sqrt (1856 / 9) = sqrt ((232 / 3)\<^sup>2) / sqrt (1856 / 9)"
    by simp
  also have "\<dots> = sqrt ((232 / 3)\<^sup>2 / (1856 / 9))"
    by (simp only: real_sqrt_divide)
  also have "(232 / 3)\<^sup>2 / (1856 / 9) = (29 :: real)"
    by (simp add: power2_eq_square)
  finally show ?thesis .
qed

lemma sqrt29_bounds: "5385 / 1000 < sqrt 29" "sqrt 29 < 5386 / 1000"
proof -
  show "5385 / 1000 < sqrt 29"
    by (rule real_less_rsqrt) (simp add: power2_eq_square)
  show "sqrt 29 < 5386 / 1000"
    by (rule real_less_lsqrt) (simp_all add: power2_eq_square)
qed

text \<open>The z-score of the outlier lies between 5.385 and 5.386, that of the other samples
  below 0.2.\<close>

lemma div_enclose:
  fixes a b c d :: real
  shows "0 < c \<Longrightarrow> a * c \<le> b \<Longrightarrow> b \<le> d * c \<Longrightarrow> a \<le> b / c \<and> b / c \<le> d"
  by (simp add: pos_le_divide_eq pos_divide_le_eq)

lemma z_high:
  assumes "1436043948 / 10 ^ 8 < sd" "sd < 1436043949 / 10 ^ 8"
  shows "\<exists>z. js_div (Fin dev_high) (Fin sd) = Fin z \<and> 5385 / 1000 < z \<and> z < 5386 / 1000"
proof -
  have sd0: "0 < sd" using assms(1) by simp
  have "53851648 / 10 ^ 7 * sd \<le> dev_high" "dev_high \<le> 53851649 / 10 ^ 7 * sd"
    using assms by (simp_all add: dev_high_def)
  then have "53851648 / 10 ^ 7 \<le> dev_high / sd" "dev_high / sd \<le> 53851649 / 10 ^ 7"
    using div_enclose[OF sd0, of "53851648 / 10 ^ 7" dev_high "53851649 / 10 ^ 7"] by blast+
  from fl_enclose[OF this]
  obtain z where z: "fl (dev_high / sd) = Fin z"
      "53851648 / 10 ^ 7 * (1 - 1 / 2 ^ 53) \<le> z" "z \<le> 53851649 / 10 ^ 7 * (1 + 1 / 2 ^ 53)"
    by auto
  have "5385 / 1000 < z" "z < 5386 / 1000" using z(2,3) by simp_all
  then show ?thesis using z(1) sd0 by auto
qed

lemma z_low:
  assumes "1436043948 / 10 ^ 8 < sd" "sd < 1436043949 / 10 ^ 8"
  shows "\<exists>z. js_div (Fin dev_low) (Fin sd) = Fin z \<and> \<bar>z\<bar> < 1 / 5"
proof -
  have sd0: "0 < sd" using assms(1) by simp
  have "18 / 100 * sd \<le> - dev_low" "- dev_low \<le> 19 / 100 * sd"
    using assms by (simp_all add: dev_low_def)
  then have "18 / 100 \<le> (- dev_low) / sd" "(- dev_low) / sd \<le> 19 / 100"
    using div_enclose[OF sd0, of "18 / 100" "- dev_low" "19 / 100"] by blast+
  moreover have "\<bar>dev_low / sd\<bar> = (- dev_low) / sd"
    using sd0 by (simp add: abs_divide dev_low_def)
  ultimately have "18 / 100 \<le> \<bar>dev_low / sd\<bar>" "\<bar>dev_low / sd\<bar> \<le> 19 / 100"
    by simp_all
  from fl_enclose_abs[OF this]
  obtain z where z: "fl (dev_low / sd) = Fin z" "\<bar>z\<bar> \<le> 19 / 100 * (1 + 1 / 2 ^ 53)"
    by auto
  have "\<bar>z\<bar> < 1 / 5" using z(2) by simp
  then show ?thesis using z(1) sd0 by auto
qed

lemma zscore_sample_outlier:
  assumes k: "k < 30" and i: "i < 30"
    and col: "map (\<lambda>d. d p) ds = map (\<lambda>x. Some (Fin x)) (outlier_values k)"
    and s: "mean s = fl (308 / 3)" "std s = Fin sd"
    and sd: "1436043948 / 10 ^ 8 < sd" "sd < 1436043949 / 10 ^ 8"
  shows "zscore_sample ds p s i acc = (if i = k then acc @ [outlier_anomaly ds p k] else acc)"
proof -
  have len: "length ds = 30" using arg_cong[OF col, of length] by (simp add: length_outlier)
  have "map (\<lambda>d. d p) ds ! i = map (\<lambda>x. Some (Fin x)) (outlier_values k) ! i"
    using col by simp
  then have v: "(ds ! i) p = Some (Fin (if i = k then 180 else 100))"
    using i k len by (simp add: outlier_values_def length_outlier)
  show ?thesis
  proof (cases "i = k")
    case True
    obtain z where z: "js_div (Fin dev_high) (Fin sd) = Fin z" "5385 / 1000 < z" "z < 5386 / 1000"
      using z_high[OF sd] by blast
    have az: "\<bar>z\<bar> = z" "sgn z = 1" using z(2) by simp_all
    have "\<lfloor>z * 100 + 1 / 2\<rfloor> = 539"
      using z(2,3) by (intro floor_unique) simp_all
    moreover have "\<not> 10 ^ 21 \<le> z" using z(3) by simp
    ultimately have tz: "toFixed2 (Fin z) = fl (539 / 100)" by (simp add: az)
    have t: "toFixed2 (Fin 180) = Fin 180" by simp
    have "3 < z" "5 < z" using z(2) by simp_all
    then show ?thesis
      using True v
      by (simp add: zscore_sample_def s diff_180 z(1) az Z_def tz outlier_anomaly_def
            toFixed2_mean t Let_def del: toFixed2.simps js_div.simps)
  next
    case False
    obtain z where z: "js_div (Fin dev_low) (Fin sd) = Fin z" "\<bar>z\<bar> < 1 / 5"
      using z_low[OF sd] by blast
    have "\<not> 3 < \<bar>z\<bar>" using z(2) by simp
    then have "\<not> js_gt (js_abs (js_div (js_sub (Fin 100) (mean s)) (std s))) Z"
      by (simp add: s diff_100 z(1) Z_def del: js_div.simps)
    then show ?thesis using False v by (simp add: zscore_sample_def Let_def)
  qed
qed

lemma detectZScore_param_outlier:
  assumes k: "k < 30"
    and col: "map (\<lambda>d. d p) ds = map (\<lambda>x. Some (Fin x)) (outlier_values k)"
    and s: "mean s = fl (308 / 3)" "std s = Fin sd"
    and sd: "1436043948 / 10 ^ 8 < sd" "sd < 1436043949 / 10 ^ 8"
  shows "detectZScore_param ds (p, s) acc = acc @ [outlier_anomaly ds p k]"
proof -
  have len: "length ds = 30" using arg_cong[OF col, of length] by (simp add: length_outlier)
  have sd0: "sd \<noteq> 0" using sd(1) by auto
  have "fold (zscore_sample ds p s) [0..<length ds] acc = acc @ [outlier_anomaly ds p k]"
    by (rule fold_single[where k = k])
       (simp_all add: len k zscore_sample_outlier[OF k _ col s sd])
  then show ?thesis using sd0 by (simp add: detectZScore_param_def s)
qed

lemma single_outlier_run:
  assumes k: "k < 30" and p: "p \<in> fst ` set REDLINE_LIMITS"
    and col: "map (\<lambda>d. d p) ds = map (\<lambda>x. Some (Fin x)) (outlier_values k)"
    and times: "\<forall>d \<in> set ds. js_ge (mission_time_s d) (Fin 0)"
  shows "map_option mean (map_of (stats (snd (detectAll (constructor ds)))) p) = Some (fl (308 / 3))"
    and "\<exists>sd. map_option std (map_of (stats (snd (detectAll (constructor ds)))) p) = Some (Fin sd)
           \<and> 1436043948 / 10 ^ 8 < sd \<and> sd < 1436043949 / 10 ^ 8"
    and "filter (\<lambda>a. type a = Z_Score_Outlier \<and> parameter a = p) (fst (detectAll (constructor ds)))
           = [outlier_anomaly ds p k]"
proof -
  let ?P = "\<lambda>a. type a = Z_Score_Outlier \<and> parameter a = p"
  let ?st = "computeStats ds []"
  let ?s = "param_baseline (map Fin (outlier_values k))"
  obtain sd where sd: "std ?s = Fin sd" "1436043948 / 10 ^ 8 < sd" "sd < 1436043949 / 10 ^ 8"
    using baseline_outlier(2)[OF k] by blast
  have len: "length ds = 30" using arg_cong[OF col, of length] by (simp add: length_outlier)
  then have ne: "ds \<noteq> []" by auto
  have w: "working_set ds = ds" by (rule working_set_all[OF times])
  have pv: "param_values ds p = map Fin (outlier_values k)" by (rule param_values_column[OF col])
  have pvne: "param_values ds p \<noteq> []" using pv length_outlier[of k] by auto
  have st: "stats (snd (detectAll (constructor ds))) = ?st"
    using ne by (simp add: stats_detectAll_constructor w)
  have mp: "map_of ?st p = Some ?s"
    using p pvne by (simp add: map_of_computeStats pv)
  show "map_option mean (map_of (stats (snd (detectAll (constructor ds)))) p) = Some (fl (308 / 3))"
    by (simp add: st mp baseline_outlier(1)[OF k])
  show "\<exists>sd. map_option std (map_of (stats (snd (detectAll (constructor ds)))) p) = Some (Fin sd)
           \<and> 1436043948 / 10 ^ 8 < sd \<and> sd < 1436043949 / 10 ^ 8"
    using sd by (simp add: st mp)
  have d: "distinct (map fst ?st)" by (rule distinct_computeStats) simp
  have mem: "(p, ?s) \<in> set ?st" using mp by (rule map_of_SomeD)
  have z: "filter ?P (detectZScoreAnomalies ds ?st []) = filter ?P [] @ [outlier_anomaly ds p k]"
    unfolding detectZScoreAnomalies_def
  proof (rule filter_fold_one[OF d mem])
    fix q t acc assume "q \<noteq> p"
    then show "filter ?P (detectZScore_param ds (q, t) acc) = filter ?P acc"
      by (intro filter_extends[OF detectZScore_param_extends]) auto
  next
    fix acc
    show "filter ?P (detectZScore_param ds (p, ?s) acc) = filter ?P acc @ [outlier_anomaly ds p k]"
      by (simp add: detectZScore_param_outlier[OF k col baseline_outlier(1)[OF k] sd]
            outlier_anomaly_def)
  qed
  have "filter ?P (detections ds ?st) = [outlier_anomaly ds p k]"
    using z filter_detections_zscore[of ?P ds ?st] by simp
  then have "filter ?P (sort_anomalies (detections ds ?st)) = [outlier_anomaly ds p k]"
    by (rule filter_sort_single)
  then show "filter ?P (fst (detectAll (constructor ds))) = [outlier_anomaly ds p k]"
    using ne by (simp add: detectAll_def anomalies_detectAll_run constructor_def w)
qed

lemma outlier_run_column:
  "k < 30 \<Longrightarrow> map (\<lambda>d. d ''velocity_ms'') (outlier_run k) = map (\<lambda>x. Some (Fin x)) (outlier_values k)"
  by (rule nth_equalityI)
     (auto simp: outlier_run_def outlier_values_def single_record_def)

lemma outlier_run_times: "\<forall>d \<in> set (outlier_run k). js_ge (mission_time_s d) (Fin 0)"
  by (auto simp: outlier_run_def single_record_def mission_time_s_def js_ge_def)

lemma fl_539_558: "fl (539 / 100) \<noteq> fl (558 / 100)"
proof -
  have "fl (539 / 100) = Fin (6068600497881743 / 2 ^ 50)"
    by (subst fl_eval[where e = "2" and u = "1 / 2 ^ 50"]) (simp_all add: rne_def pow2_def)
  moreover have "fl (558 / 100) = Fin (3141260740090921 / 2 ^ 49)"
    by (subst fl_eval[where e = "2" and u = "1 / 2 ^ 50"]) (simp_all add: rne_def pow2_def)
  ultimately show ?thesis by simp
qed

text \<open>
  Claim C4, as stated, fails in its two approximations. On thirty records whose velocity
  is 100 except for 180 in record 7, the standard deviation of the baseline is above 14.36
  and not about 14.33, and the z-score stored with the one anomaly is 5.39, not 5.58.
\<close>

theorem C4_single_outlier_counterexample:
  "(\<exists>sd. map_option std (map_of (stats (snd (detectAll (constructor (outlier_run 7))))) ''velocity_ms'')
            = Some (Fin sd)
         \<and> 1436 / 100 < sd)
   \<and> map detail (filter (of_kind Z_Score_Outlier ''velocity_ms'')
                    (fst (detectAll (constructor (outlier_run 7)))))
     = [ZScoreFields (fl (10267 / 100)) (fl (539 / 100))]
   \<and> fl (539 / 100) \<noteq> fl (558 / 100)"
proof -
  have k: "''velocity_ms'' \<in> fst ` set REDLINE_LIMITS" by (simp add: REDLINE_LIMITS_def)
  have f: "of_kind Z_Score_Outlier ''velocity_ms''
             = (\<lambda>a. type a = Z_Score_Outlier \<and> parameter a = ''velocity_ms'')"
    by (simp add: of_kind_def fun_eq_iff)
  obtain sd where sd:
      "map_option std (map_of (stats (snd (detectAll (constructor (outlier_run 7))))) ''velocity_ms'')
         = Some (Fin sd)" "1436043948 / 10 ^ 8 < sd"
    using single_outlier_run(2)[OF _ k outlier_run_column outlier_run_times, of 7] by auto
  have "1436 / 100 < sd" using sd(2) by simp
  then have "\<exists>sd. map_option std (map_of (stats (snd (detectAll (constructor (outlier_run 7))))) ''velocity_ms'')
            = Some (Fin sd) \<and> 1436 / 100 < sd"
    using sd(1) by blast
  moreover have "map detail (filter (of_kind Z_Score_Outlier ''velocity_ms'')
                    (fst (detectAll (constructor (outlier_run 7)))))
     = [ZScoreFields (fl (10267 / 100)) (fl (539 / 100))]"
    using single_outlier_run(3)[OF _ k outlier_run_column outlier_run_times, of 7]
    by (simp add: f outlier_anomaly_def)
  ultimately show ?thesis using fl_539_558 by blast
qed

text \<open>
  Claim C4, amended. Given thirty records with valid mission times whose values of one
  monitored parameter are 100 except for one 180, the baseline of the parameter has the
  mean \<open>308/3\<close>, rounded to binary64, and a standard deviation between 14.36043948 and
  14.36043949, as is the population standard deviation \<open>\<surd>(1856/9)\<close> of the samples; the
  z-score of the outlier is about \<open>\<surd>29\<close>, which is about 5.39, and is stored as 5.39; and
  the run returns exactly one z-score anomaly for the parameter, at the outlier, with
  severity CRITICAL.
\<close>

theorem C4_single_outlier_amended:
  assumes "k < 30" and "p \<in> fst ` set REDLINE_LIMITS"
    and "map (\<lambda>d. d p) ds = map (\<lambda>x. Some (Fin x)) ((replicate 30 100)[k := 180])"
    and "\<forall>d \<in> set ds. js_ge (mission_time_s d) (Fin 0)"
  shows "map_option mean (map_of (stats (snd (detectAll (constructor ds)))) p) = Some (fl (308 / 3))
    \<and> (\<exists>sd. map_option std (map_of (stats (snd (detectAll (constructor ds)))) p) = Some (Fin sd)
           \<and> 1436043948 / 10 ^ 8 < sd \<and> sd < 1436043949 / 10 ^ 8)
    \<and> 1436043948 / 10 ^ 8 < sqrt (1856 / 9) \<and> sqrt (1856 / 9) < 1436043949 / 10 ^ 8
    \<and> (180 - 308 / 3) / sqrt (1856 / 9) = sqrt 29
    \<and> 5385 / 1000 < sqrt 29 \<and> sqrt 29 < 5386 / 1000
    \<and> filter (of_kind Z_Score_Outlier p) (fst (detectAll (constructor ds)))
        = [\<lparr>type = Z_Score_Outlier, severity = CRITICAL, parameter = p, paramLabel = label_or p,
            a_value = Fin 180, detail = ZScoreFields (fl (10267 / 100)) (fl (539 / 100)),
            unit = unit_or p, missionTime = mission_time_s (ds ! k), index = k\<rparr>]"
proof -
  have f: "of_kind Z_Score_Outlier p = (\<lambda>a. type a = Z_Score_Outlier \<and> parameter a = p)"
    by (simp add: of_kind_def fun_eq_iff)
  have col: "map (\<lambda>d. d p) ds = map (\<lambda>x. Some (Fin x)) (outlier_values k)"
    using assms(3) by (simp add: outlier_values_def)
  have "filter (of_kind Z_Score_Outlier p) (fst (detectAll (constructor ds)))
        = [\<lparr>type = Z_Score_Outlier, severity = CRITICAL, parameter = p, paramLabel = label_or p,
            a_value = Fin 180, detail = ZScoreFields (fl (10267 / 100)) (fl (539 / 100)),
            unit = unit_or p, missionTime = mission_time_s (ds ! k), index = k\<rparr>]"
    using single_outlier_run(3)[OF assms(1,2) col assms(4)] by (simp add: f outlier_anomaly_def)
  then show ?thesis
    using single_outlier_run(1,2)[OF assms(1,2) col assms(4)] sd_bounds sqrt29_bounds z_outlier
    by blast
qed

theorem C4_single_outlier_amended_witness:
  "map severity (filter (of_kind Z_Score_Outlier ''velocity_ms'')
                   (fst (detectAll (constructor (outlier_run 7))))) = [CRITICAL]
   \<and> map index (filter (of_kind Z_Score_Outlier ''velocity_ms'')
                   (fst (detectAll (constructor (outlier_run 7))))) = [7]"
proof -
  have k: "''velocity_ms'' \<in> fst ` set REDLINE_LIMITS" by (simp add: REDLINE_LIMITS_def)
  have col: "map (\<lambda>d. d ''velocity_ms'') (outlier_run 7)
               = map (\<lambda>x. Some (Fin x)) ((replicate 30 100)[7 := 180])"
    using outlier_run_column[of 7] by (simp add: outlier_values_def)
  show ?thesis
    using C4_single_outlier_amended[OF _ k col outlier_run_times] by simp
qed

section \<open>Deduplication of sustained deviations\<close>

lemma dup_iff:
  "dup acc p i \<longleftrightarrow>
     (\<exists>a \<in> set acc. of_kind Sustained_Deviation p a \<and> \<bar>int (index a) - int i\<bar> < int WIN)"
  by (auto simp: dup_def find_None_iff of_kind_def)

lemma sustained_sample_cases:
  "\<exists>a. of_kind Sustained_Deviation p a \<and> index a = i \<and>
       (\<forall>acc. sustained_sample ds p s i acc
                = (if triggers ds p s i \<and> \<not> dup acc p i then acc @ [a] else acc))"
proof (cases "window_dev ds p s i")
  case None
  then show ?thesis
    by (intro exI[of _ "\<lparr>type = Sustained_Deviation, severity = CAUTION, parameter = p,
          paramLabel = [], a_value = NaN, detail = SustainedFields NaN NaN, unit = [],
          missionTime = NaN, index = i\<rparr>"])
       (simp add: sustained_sample_def triggers_def of_kind_def)
next
  case (Some r)
  obtain wm dev where r: "r = (wm, dev)" by (cases r)
  show ?thesis
    by (intro exI[of _ "\<lparr>type = Sustained_Deviation,
          severity = (if js_gt dev (Fin 4) then CRITICAL
                      else if js_gt dev (Fin 3) then WARNING else CAUTION),
          parameter = p, paramLabel = label_or p, a_value = toFixed2 wm,
          detail = SustainedFields (toFixed2 (mean s)) (toFixed2 dev), unit = unit_or p,
          missionTime = mission_time_s (ds ! i), index = i\<rparr>"])
       (simp add: sustained_sample_def triggers_def of_kind_def Some r)
qed

lemma sustained_sample_dup:
  "dup acc p i \<Longrightarrow> sustained_sample ds p s i acc = acc"
  by (simp add: sustained_sample_def split: option.splits)

lemma dup_indices:
  "dup acc p i \<longleftrightarrow> (\<exists>x \<in> set (kind_indices p acc). \<bar>int x - int i\<bar> < int WIN)"
  by (auto simp: dup_iff kind_indices_def)

text \<open>Flags of one parameter are at least a window apart.\<close>

lemma fold_sustained_separated:
  assumes "sorted_wrt (<) js"
    and "sorted_wrt (\<lambda>x y. x + WIN \<le> y) (kind_indices p acc)"
    and "\<forall>x \<in> set (kind_indices p acc). \<forall>j \<in> set js. x < j"
  shows "sorted_wrt (\<lambda>x y. x + WIN \<le> y) (kind_indices p (fold (sustained_sample ds p s) js acc))"
  using assms
proof (induction js arbitrary: acc)
  case Nil
  then show ?case by simp
next
  case (Cons j js)
  obtain a where a: "of_kind Sustained_Deviation p a" "index a = j"
    and step: "\<And>acc. sustained_sample ds p s j acc
                = (if triggers ds p s j \<and> \<not> dup acc p j then acc @ [a] else acc)"
    using sustained_sample_cases[of p j ds s] by blast
  have js: "sorted_wrt (<) js" and lt: "\<forall>j' \<in> set js. j < j'" using Cons.prems(1) by auto
  show ?case
  proof (cases "triggers ds p s j \<and> \<not> dup acc p j")
    case True
    have ki: "kind_indices p (acc @ [a]) = kind_indices p acc @ [j]"
      using a by (simp add: kind_indices_def)
    have far: "\<forall>x \<in> set (kind_indices p acc). x + WIN \<le> j"
    proof
      fix x assume x: "x \<in> set (kind_indices p acc)"
      then have "x < j" using Cons.prems(3) by simp
      moreover have "\<not> \<bar>int x - int j\<bar> < int WIN" using True x by (auto simp: dup_indices)
      ultimately show "x + WIN \<le> j" by linarith
    qed
    have 1: "sorted_wrt (\<lambda>x y. x + WIN \<le> y) (kind_indices p (acc @ [a]))"
      using Cons.prems(2) far by (simp add: ki sorted_wrt_append)
    have 2: "\<forall>x \<in> set (kind_indices p (acc @ [a])). \<forall>j' \<in> set js. x < j'"
      using Cons.prems(3) lt by (auto simp: ki)
    have "sustained_sample ds p s j acc = acc @ [a]" using True by (simp add: step)
    then show ?thesis using Cons.IH[OF js 1 2] by simp
  next
    case False
    have 2: "\<forall>x \<in> set (kind_indices p acc). \<forall>j' \<in> set js. x < j'"
      using Cons.prems(3) by simp
    have "sustained_sample ds p s j acc = acc" using False by (auto simp: step)
    then show ?thesis using Cons.IH[OF js Cons.prems(2) 2] by simp
  qed
qed

text \<open>When every trigger lies within a window of the first one, only the first is flagged.\<close>

lemma fold_sustained_quiet:
  assumes "\<forall>j \<in> set js. triggers ds p s j \<longrightarrow> dup acc p j"
  shows "fold (sustained_sample ds p s) js acc = acc"
  using assms
proof (induction js)
  case Nil
  then show ?case by simp
next
  case (Cons j js)
  have "sustained_sample ds p s j acc = acc"
    using Cons.prems sustained_sample_cases[of p j ds s] by auto
  then show ?case using Cons by simp
qed

lemma fold_sustained_first:
  assumes i0: "WIN \<le> i0" "i0 < n" "triggers ds p s i0"
    and all: "\<forall>j. WIN \<le> j \<and> j < n \<and> triggers ds p s j \<longrightarrow> i0 \<le> j \<and> j < i0 + WIN"
    and acc: "filter (of_kind Sustained_Deviation p) acc = []"
  shows "kind_indices p (fold (sustained_sample ds p s) [WIN..<n] acc) = [i0]"
proof -
  obtain a where a: "of_kind Sustained_Deviation p a" "index a = i0"
    and step: "\<And>acc. sustained_sample ds p s i0 acc
                = (if triggers ds p s i0 \<and> \<not> dup acc p i0 then acc @ [a] else acc)"
    using sustained_sample_cases[of p i0 ds s] by blast
  have nd: "\<And>j. \<not> dup acc p j" using acc by (auto simp: dup_iff filter_empty_conv)
  have split: "[WIN..<n] = [WIN..<i0] @ i0 # [Suc i0..<n]"
    using i0(1,2) by (metis le_add_diff_inverse less_imp_le_nat upt_add_eq_append upt_conv_Cons)
  have 1: "fold (sustained_sample ds p s) [WIN..<i0] acc = acc"
    by (rule fold_sustained_quiet) (use all i0 in auto)
  have 2: "sustained_sample ds p s i0 acc = acc @ [a]"
    using i0(3) nd by (simp add: step)
  have 3: "fold (sustained_sample ds p s) [Suc i0..<n] (acc @ [a]) = acc @ [a]"
  proof (rule fold_sustained_quiet, intro ballI impI)
    fix j assume j: "j \<in> set [Suc i0..<n]" and t: "triggers ds p s j"
    then have "i0 \<le> j \<and> j < i0 + WIN" using all i0(1) by auto
    then have "\<bar>int (index a) - int j\<bar> < int WIN" using a(2) by auto
    then show "dup (acc @ [a]) p j" using a(1) by (auto simp: dup_iff)
  qed
  show ?thesis
    using a acc by (simp add: split 1 2 3 kind_indices_def)
qed

lemma filter_fold_entry:
  assumes "distinct (map fst st)" "(p, s) \<in> set st"
    and "\<And>q t acc. (q, t) \<in> set st \<Longrightarrow> q \<noteq> p \<Longrightarrow> filter P (f (q, t) acc) = filter P acc"
    and "\<And>acc'. filter P acc' = F \<Longrightarrow> G (filter P (f (p, s) acc'))"
    and "filter P acc = F"
  shows "G (filter P (fold f st acc))"
  using assms(1,2,3,5)
proof (induction st arbitrary: acc)
  case Nil
  then show ?case by simp
next
  case (Cons x st)
  obtain q t where x: "x = (q, t)" by (cases x)
  show ?case
  proof (cases "x = (p, s)")
    case True
    have np: "\<And>y. y \<in> set st \<Longrightarrow> fst y \<noteq> p"
      using Cons.prems(1) True by (auto simp: image_iff)
    have "filter P (fold f st (f x acc)) = filter P (f x acc)"
    proof (rule fold_skip)
      fix y acc' assume y: "y \<in> set st"
      obtain q' t' where y': "y = (q', t')" by (cases y)
      have "q' \<noteq> p" using np[OF y] y' by simp
      then show "filter P (f y acc') = filter P acc'"
        using Cons.prems(3)[of q' t' acc'] y y' by simp
    qed
    then show ?thesis using True assms(4)[OF Cons.prems(4)] by simp
  next
    case False
    have qp: "q \<noteq> p"
    proof
      assume "q = p"
      then have "fst (p, s) = fst x" "(p, s) \<in> set st" using x False Cons.prems(2) by auto
      then show False using Cons.prems(1) by (auto simp: image_iff)
    qed
    have "filter P (f x acc) = filter P acc" using Cons.prems(3)[of q t acc] qp x by simp
    then have "filter P (f x acc) = F" using Cons.prems(4) by simp
    moreover have "(p, s) \<in> set st" using Cons.prems(2) False by simp
    ultimately show ?thesis using Cons.IH[of "f x acc"] Cons.prems by simp
  qed
qed

lemma detectSustained_other:
  "q \<noteq> p \<Longrightarrow>
   filter (of_kind Sustained_Deviation p) (detectSustained_param ds (q, t) acc)
     = filter (of_kind Sustained_Deviation p) acc"
  by (rule filter_extends[OF detectSustained_param_extends]) (simp add: of_kind_def)

lemma detectSustained_separated:
  assumes "distinct (map fst st)" "(p, s) \<in> set st"
    and "filter (of_kind Sustained_Deviation p) acc = []"
  shows "sorted_wrt (\<lambda>x y. x + WIN \<le> y)
           (map index (filter (of_kind Sustained_Deviation p) (detectSustainedDeviations ds st acc)))"
  unfolding detectSustainedDeviations_def
proof (rule filter_fold_entry[where G = "\<lambda>r. sorted_wrt (\<lambda>x y. x + WIN \<le> y) (map index r)",
        OF assms(1,2) _ _ assms(3)])
  fix q t acc assume "q \<noteq> p"
  then show "filter (of_kind Sustained_Deviation p) (detectSustained_param ds (q, t) acc)
               = filter (of_kind Sustained_Deviation p) acc"
    by (rule detectSustained_other)
next
  fix acc' assume e: "filter (of_kind Sustained_Deviation p) acc' = []"
  then have k: "kind_indices p acc' = []" by (simp add: kind_indices_def)
  have "sorted_wrt (\<lambda>x y. x + WIN \<le> y)
          (kind_indices p (fold (sustained_sample ds p s) [WIN..<length ds] acc'))"
    by (rule fold_sustained_separated) (simp_all add: k)
  then show "sorted_wrt (\<lambda>x y. x + WIN \<le> y)
          (map index (filter (of_kind Sustained_Deviation p) (detectSustained_param ds (p, s) acc')))"
    using k by (simp add: detectSustained_param_def kind_indices_def)
qed

lemma detectSustained_first:
  assumes "distinct (map fst st)" "(p, s) \<in> set st" "std s \<noteq> Fin 0"
    and "filter (of_kind Sustained_Deviation p) acc = []"
    and i0: "WIN \<le> i0" "i0 < length ds" "triggers ds p s i0"
    and all: "\<forall>j. WIN \<le> j \<and> j < length ds \<and> triggers ds p s j \<longrightarrow> i0 \<le> j \<and> j < i0 + WIN"
  shows "map index (filter (of_kind Sustained_Deviation p) (detectSustainedDeviations ds st acc)) = [i0]"
  unfolding detectSustainedDeviations_def
proof (rule filter_fold_entry[where G = "\<lambda>r. map index r = [i0]", OF assms(1,2) _ _ assms(4)])
  fix q t acc assume "q \<noteq> p"
  then show "filter (of_kind Sustained_Deviation p) (detectSustained_param ds (q, t) acc)
               = filter (of_kind Sustained_Deviation p) acc"
    by (rule detectSustained_other)
next
  fix acc' assume e: "filter (of_kind Sustained_Deviation p) acc' = []"
  show "map index (filter (of_kind Sustained_Deviation p) (detectSustained_param ds (p, s) acc')) = [i0]"
    using fold_sustained_first[OF i0 all e] assms(3)
    by (simp add: detectSustained_param_def kind_indices_def)
qed

lemma map_filter_replicate:
  "List.map_filter f (replicate n x) = (case f x of None \<Rightarrow> [] | Some y \<Rightarrow> replicate n y)"
  by (induction n) (auto simp: List.map_filter_simps split: option.splits)

lemma map_filter_append: "List.map_filter f (xs @ ys) = List.map_filter f xs @ List.map_filter f ys"
  by (simp add: List.map_filter_def)

lemma window_dev_nat:
  assumes "window_values ds p j = map (\<lambda>n. Fin (real n)) ns" "length ns = 20"
    and "sum_list ns < 2 ^ 53"
  shows "window_dev ds p s j
           = Some (js_div (Fin (real (sum_list ns))) (Fin 20),
                   js_div (js_abs (js_sub (js_div (Fin (real (sum_list ns))) (Fin 20)) (mean s)))
                          (std s))"
proof -
  have "foldl js_add (Fin 0) (map (\<lambda>n. Fin (real n)) ns) = Fin (real (sum_list ns))"
    using js_sum_nat[OF assms(3)] by (simp add: js_sum_def)
  then show ?thesis
    unfolding window_dev_def assms(1) using assms(2) by (simp add: WIN_def Let_def)
qed

text \<open>The deviation of a window with \<open>m\<close> values 10 and \<open>20 - m\<close> values 0 from the mean
  1 in units of the standard deviation 3 exceeds 2 exactly from \<open>m = 15\<close> on.\<close>

lemma excursion_dev:
  assumes "m \<le> 20"
  shows "js_gt (js_div (js_abs (js_sub (js_div (Fin (real (10 * m))) (Fin 20)) (Fin 1))) (Fin 3))
           (Fin 2) \<longleftrightarrow> 15 \<le> m"
proof -
  define x where "x = \<bar>real_of_int (int m - 2) / 2\<bar> / 3"
  have "real (10 * m) / 20 = real_of_int (int m) / 2" by simp
  then have wm: "js_div (Fin (real (10 * m))) (Fin 20) = Fin (real_of_int (int m) / 2)"
    using fl_half[of "int m"] assms by simp
  have e: "real_of_int (int m) / 2 + - 1 = real_of_int (int m - 2) / 2" by simp
  have b: "\<bar>int m - 2\<bar> \<le> 20" using assms by simp
  have "js_sub (Fin (real_of_int (int m) / 2)) (Fin 1) = fl (real_of_int (int m) / 2 + - 1)"
    by (simp only: js_sub_def js_neg.simps js_add.simps)
  also have "\<dots> = fl (real_of_int (int m - 2) / 2)" by (simp only: e)
  also have "\<dots> = Fin (real_of_int (int m - 2) / 2)" by (rule fl_half[OF b])
  finally have sub: "js_sub (Fin (real_of_int (int m) / 2)) (Fin 1)
      = Fin (real_of_int (int m - 2) / 2)" .
  have dev: "js_div (js_abs (js_sub (js_div (Fin (real (10 * m))) (Fin 20)) (Fin 1))) (Fin 3) = fl x"
    unfolding wm sub by (simp add: x_def)
  have xm: "x = \<bar>real m - 2\<bar> / 6" by (simp add: x_def)
  consider "15 \<le> m" | "m = 14" | "m = 2" | "m \<le> 13" "m \<noteq> 2" by linarith
  then show ?thesis
  proof cases
    case 1
    then have "13 / 6 \<le> x" "x \<le> 3" using assms by (simp_all add: xm)
    from fl_enclose[OF this]
    obtain r where r: "fl x = Fin r" "13 / 6 * (1 - 1 / 2 ^ 53) \<le> r" by auto
    have "2 < r" using r(2) by simp
    then show ?thesis unfolding dev r(1) using 1 by simp
  next
    case 2
    then have "x = 2" by (simp add: xm)
    then show ?thesis unfolding dev using 2 by simp
  next
    case 3
    then have "x = 0" by (simp add: xm)
    then show ?thesis unfolding dev using 3 by simp
  next
    case 4
    then have "m \<le> 1 \<or> 3 \<le> m" by linarith
    then have "real m \<le> 1 \<or> 3 \<le> real m" by auto
    then have "1 \<le> \<bar>real m - 2\<bar>" by linarith
    then have "1 / 6 \<le> x" by (simp add: xm)
    moreover have "x \<le> 11 / 6" using 4(1) by (simp add: xm abs_if)
    ultimately obtain r where r: "fl x = Fin r" "r \<le> 11 / 6 * (1 + 1 / 2 ^ 53)"
      using fl_enclose[of "1 / 6" x "11 / 6"] by auto
    have "\<not> 2 < r" using r(2) by simp
    then show ?thesis unfolding dev r(1) using 4 by simp
  qed
qed

lemma excursion_window:
  assumes "20 \<le> j" "j < 200"
  shows "window_values excursion_run ''velocity_ms'' j
           = map Fin (replicate (40 - j) 10 @ replicate (20 - (40 - j)) 0)"
proof (cases "j \<le> 40")
  case True
  then have "min 20 (20 - (j - 20)) = 40 - j" "min (20 - (40 - j)) 180 = 20 - (40 - j)"
    "20 - (40 - j) = j - 20"
    using assms by auto
  then show ?thesis
    using assms True
    by (simp add: window_values_def excursion_run_def WIN_def map_filter_append
          map_filter_replicate single_record_def)
next
  case False
  then show ?thesis
    using assms
    by (simp add: window_values_def excursion_run_def WIN_def map_filter_append
          map_filter_replicate single_record_def min_def)
qed

lemma excursion_triggers:
  assumes "20 \<le> j" "j < 200"
  shows "triggers excursion_run ''velocity_ms'' excursion_baseline j \<longleftrightarrow> j < 26"
proof -
  let ?ns = "replicate (40 - j) (10::nat) @ replicate (20 - (40 - j)) 0"
  have len: "length ?ns = 20" using assms by simp
  have sum: "sum_list ?ns = 10 * (40 - j)"
    by (simp add: sum_list_replicate)
  have w: "window_values excursion_run ''velocity_ms'' j = map (\<lambda>n. Fin (real n)) ?ns"
    unfolding excursion_window[OF assms] by simp
  have "sum_list ?ns < 2 ^ 53" unfolding sum by simp
  from window_dev_nat[OF w len this]
  have dev: "window_dev excursion_run ''velocity_ms'' excursion_baseline j
       = Some (js_div (Fin (real (10 * (40 - j)))) (Fin 20),
               js_div (js_abs (js_sub (js_div (Fin (real (10 * (40 - j)))) (Fin 20)) (Fin 1)))
                      (Fin 3))"
    unfolding sum by (simp add: excursion_baseline_def)
  have "40 - j \<le> 20" using assms by simp
  from excursion_dev[OF this] show ?thesis
    unfolding triggers_def dev
    using assms by (auto simp: SIG_def)
qed

lemma no_sustained_before:
  "filter (of_kind Sustained_Deviation p)
     (detectRedlineViolations w (detectRateOfChange w st (detectZScoreAnomalies w st []))) = []"
proof -
  let ?P = "of_kind Sustained_Deviation p"
  let ?z = "detectZScoreAnomalies w st []"
  let ?r = "detectRateOfChange w st ?z"
  have "filter ?P (detectRedlineViolations w ?r) = filter ?P ?r"
    by (rule filter_extends[OF detectRedline_extends]) (simp add: of_kind_def)
  also have "\<dots> = filter ?P ?z"
    by (rule filter_extends[OF detectRateOfChange_extends]) (simp add: of_kind_def)
  also have "\<dots> = filter ?P []"
    by (rule filter_extends[OF detectZScore_extends]) (simp add: of_kind_def)
  finally show ?thesis by simp
qed

lemma excursion_working: "working_set excursion_run = excursion_run"
  by (rule working_set_all)
     (auto simp: excursion_run_def single_record_def mission_time_s_def js_ge_def)

lemma excursion_values:
  "param_values excursion_run ''velocity_ms'' = map Fin (replicate 20 10 @ replicate 180 0)"
  by (rule param_values_column) (simp add: excursion_run_def single_record_def)

lemma excursion_stats:
  "map_of (computeStats excursion_run []) ''velocity_ms'' = Some excursion_baseline"
proof -
  let ?xs = "replicate 20 (10::real) @ replicate 180 0"
  let ?ns = "replicate 20 (10::nat) @ replicate 180 0"
  let ?qs = "replicate 20 (81::nat) @ replicate 180 1"
  have ne: "?xs \<noteq> []" by simp
  have xs: "map Fin ?xs = map (\<lambda>n. Fin (real n)) ?ns" by simp
  have "js_sum (map Fin ?xs) = Fin (real (sum_list ?ns))"
    unfolding xs by (rule js_sum_nat) (simp add: sum_list_replicate)
  then have s: "js_sum (map Fin ?xs) = Fin 200" by (simp add: sum_list_replicate)
  have m: "mean (param_baseline (map Fin ?xs)) = Fin 1"
    unfolding param_baseline_mean s by simp
  have sq: "map (\<lambda>x. js_pow2 (js_sub x (Fin 1))) (map Fin ?xs) = map (\<lambda>n. Fin (real n)) ?qs"
    by (simp add: js_pow2_def js_sub_def)
  have "js_sum (map (\<lambda>n. Fin (real n)) ?qs) = Fin (real (sum_list ?qs))"
    by (rule js_sum_nat) (simp add: sum_list_replicate)
  then have q: "js_sum (map (\<lambda>x. js_pow2 (js_sub x (Fin 1))) (map Fin ?xs)) = Fin 1800"
    unfolding sq by (simp add: sum_list_replicate)
  have r: "sqrt 9 = 3" using real_sqrt_abs[of 3] by simp
  have sd: "std (param_baseline (map Fin ?xs)) = Fin 3"
    unfolding param_baseline_std m population_variance_def q by (simp add: r)
  have st: "set ?xs = {0, 10}" by auto
  have mn: "b_min (param_baseline (map Fin ?xs)) = Fin 0"
    unfolding param_baseline_min_max Math_min_Fin[OF ne] by (simp add: st)
  have mx: "b_max (param_baseline (map Fin ?xs)) = Fin 10"
    unfolding param_baseline_min_max Math_max_Fin[OF ne] by (simp add: st)
  have "param_baseline (map Fin ?xs) = excursion_baseline"
    using m sd mn mx by (simp add: excursion_baseline_def baseline.equality)
  moreover have "''velocity_ms'' \<in> fst ` set REDLINE_LIMITS" by (simp add: REDLINE_LIMITS_def)
  ultimately show ?thesis
    by (simp add: map_of_computeStats excursion_values del: map_append)
qed

lemma filter_sort_indices:
  assumes "map index (filter P xs) = [i]"
  shows "map index (filter P (sort_anomalies xs)) = [i]"
proof -
  obtain a where a: "filter P xs = [a]" "index a = i"
    using assms by (cases "filter P xs") auto
  show ?thesis using filter_sort_single[OF a(1)] a(2) by simp
qed

lemma excursion_result:
  assumes "map index (filter (of_kind Sustained_Deviation ''velocity_ms'')
             (detectSustainedDeviations excursion_run (computeStats excursion_run [])
               (detectRedlineViolations excursion_run
                 (detectRateOfChange excursion_run (computeStats excursion_run [])
                   (detectZScoreAnomalies excursion_run (computeStats excursion_run []) []))))) = [i]"
  shows "map index (filter (of_kind Sustained_Deviation ''velocity_ms'')
           (fst (detectAll (constructor excursion_run)))) = [i]"
proof -
  have ne: "excursion_run \<noteq> []" by (simp add: excursion_run_def)
  have "fst (detectAll (constructor excursion_run))
          = sort_anomalies (detections excursion_run (computeStats excursion_run []))"
    using ne by (simp add: detectAll_def anomalies_detectAll_run constructor_def excursion_working)
  then show ?thesis
    using filter_sort_indices[of "of_kind Sustained_Deviation ''velocity_ms''"
            "detections excursion_run (computeStats excursion_run [])" i] assms
    by (simp add: detections_def)
qed

text \<open>
  Claim C5. A candidate flag of the sustained-deviation detector is skipped whenever the
  anomaly list already holds a sustained-deviation anomaly of the same parameter whose
  index is less than \<open>WIN = 20\<close> away. Hence, in a call of the detector on an anomaly list
  without such anomalies of a parameter that has a baseline, the flags of the parameter
  are at least 20 indices apart; and when the triggering windows all end less than 20
  indices after the first of them (two overlapping triggering windows, for one), exactly
  one anomaly is produced for the parameter, at the first.
\<close>

theorem C5_sustained_dedup:
  "(dup acc' p i \<longleftrightarrow>
      (\<exists>a \<in> set acc'. of_kind Sustained_Deviation p a \<and> \<bar>int (index a) - int i\<bar> < int WIN))
   \<and> (dup acc' p i \<longrightarrow> sustained_sample ds p s i acc' = acc')
   \<and> (distinct (map fst st) \<and> (p, s) \<in> set st
        \<and> filter (of_kind Sustained_Deviation p) acc = [] \<longrightarrow>
        sorted_wrt (\<lambda>x y. x + WIN \<le> y)
          (map index (filter (of_kind Sustained_Deviation p) (detectSustainedDeviations ds st acc)))
        \<and> (std s \<noteq> Fin 0 \<and> WIN \<le> i0 \<and> i0 < length ds \<and> triggers ds p s i0
            \<and> (\<forall>j. WIN \<le> j \<and> j < length ds \<and> triggers ds p s j \<longrightarrow> i0 \<le> j \<and> j < i0 + WIN)
            \<longrightarrow> map index (filter (of_kind Sustained_Deviation p)
                             (detectSustainedDeviations ds st acc)) = [i0]))"
  using dup_iff[of acc' p i] sustained_sample_dup[of acc' p i ds s]
        detectSustained_separated[of st p s acc ds]
        detectSustained_first[of st p s acc i0 ds]
  by blast

theorem C5_sustained_dedup_witness:
  "triggers excursion_run ''velocity_ms'' excursion_baseline 20
   \<and> triggers excursion_run ''velocity_ms'' excursion_baseline 21
   \<and> map_of (computeStats (working_set excursion_run) []) ''velocity_ms'' = Some excursion_baseline
   \<and> map index (filter (of_kind Sustained_Deviation ''velocity_ms'')
                   (fst (detectAll (constructor excursion_run)))) = [20]"
proof -
  let ?st = "computeStats excursion_run []"
  let ?acc = "detectRedlineViolations excursion_run
                (detectRateOfChange excursion_run ?st (detectZScoreAnomalies excursion_run ?st []))"
  have len: "length excursion_run = 200" by (simp add: excursion_run_def)
  have d: "distinct (map fst ?st)" by (rule distinct_computeStats) simp
  have m: "(''velocity_ms'', excursion_baseline) \<in> set ?st"
    using excursion_stats by (rule map_of_SomeD)
  have a: "filter (of_kind Sustained_Deviation ''velocity_ms'') ?acc = []"
    by (rule no_sustained_before)
  have sd: "std excursion_baseline \<noteq> Fin 0" by (simp add: excursion_baseline_def)
  have t20: "triggers excursion_run ''velocity_ms'' excursion_baseline 20"
    and t21: "triggers excursion_run ''velocity_ms'' excursion_baseline 21"
    by (simp_all add: excursion_triggers)
  have all: "\<forall>j. WIN \<le> j \<and> j < length excursion_run
               \<and> triggers excursion_run ''velocity_ms'' excursion_baseline j
               \<longrightarrow> 20 \<le> j \<and> j < 20 + WIN"
    by (auto simp: WIN_def len excursion_triggers)
  have "map index (filter (of_kind Sustained_Deviation ''velocity_ms'')
          (detectSustainedDeviations excursion_run ?st ?acc)) = [20]"
    using C5_sustained_dedup[of "[]" "''velocity_ms''" 0 excursion_run excursion_baseline
            ?st ?acc 20] d m a sd t20 all
    by (simp add: WIN_def len)
  then show ?thesis
    using t20 t21 excursion_stats by (simp add: excursion_result excursion_working)
qed

end
